theory Spec2Isabelle
  imports Main "HOL-Library.Word"
begin

unbundle bit_operations_syntax

section \<open>pylas.point.packing: packing and unpacking of point dimensions\<close>

text \<open>
  The module \<^verbatim>\<open>pylas/point/packing.py\<close> extracts sub-fields from the composed fields
  of a point record and packs them back, with bit masks. Masks are Python integers
  (type \<^typ>\<open>int\<close>: unbounded, two's complement for the bitwise operators, exactly as
  \<open>AND\<close>, \<open>OR\<close>, \<open>NOT\<close>, \<^const>\<open>push_bit\<close> and \<^const>\<open>drop_bit\<close> on \<^typ>\<open>int\<close>); columns are
  one-dimensional numpy arrays of an integer element type.
\<close>

subsection \<open>Errors\<close>

text \<open>
  The exceptions the module can raise. \<^verbatim>\<open>OverflowError\<close> carries the message built by
  \<^verbatim>\<open>pack\<close> (the offending value and the maximum allowed) and the context added by
  \<^verbatim>\<open>_repack_composed_dim\<close> (sub-field name, composed dimension name, the wrapped error).
  \<^verbatim>\<open>ValueError\<close> is what Python and numpy raise for a negative shift count, for the maximum
  of an empty array, for shapes that do not broadcast and for a missing field name.
  \<^verbatim>\<open>TypeError\<close> is what numpy raises when a bitwise operator has no loop for its operands.
  \<open>ObjectArray\<close> is no exception: it marks the one place where the model stops, an integer
  scalar beyond 64 bits, for which numpy computes with arrays of Python objects.
\<close>

datatype overflow_msg =
  Greater int int
| Repacking string string overflow_msg

datatype value_error =
  NegativeShiftCount
| ZeroSizeReduction
| BroadcastMismatch
| NoField string

datatype error =
  OverflowError overflow_msg
| ValueError value_error
| TypeError
| ObjectArray

subsection \<open>numpy arrays\<close>

text \<open>
  numpy's integer element types are unsigned or signed, of 8, 16, 32 or 64 bits
  (\<^verbatim>\<open>uint8\<close> is \<open>UInt W8\<close>, \<^verbatim>\<open>int32\<close> is \<open>SInt W32\<close>). An array is its element type and
  the list of the integer values of its elements. Converting a value to an element type
  keeps its low bits, as numpy's integer casts do.
\<close>

datatype width = W8 | W16 | W32 | W64

fun nbits :: "width \<Rightarrow> nat" where
  "nbits W8 = 8"
| "nbits W16 = 16"
| "nbits W32 = 32"
| "nbits W64 = 64"

datatype dtype = UInt width | SInt width

fun bits :: "dtype \<Rightarrow> nat" where
  "bits (UInt w) = nbits w"
| "bits (SInt w) = nbits w"

fun cast :: "dtype \<Rightarrow> int \<Rightarrow> int" where
  "cast (UInt w) v = take_bit (nbits w) v"
| "cast (SInt w) v = signed_take_bit (nbits w - 1) v"

fun in_range :: "dtype \<Rightarrow> int \<Rightarrow> bool" where
  "in_range (UInt w) v = (0 \<le> v \<and> v < 2 ^ nbits w)"
| "in_range (SInt w) v = (- (2 ^ (nbits w - 1)) \<le> v \<and> v < 2 ^ (nbits w - 1))"

record ndarray =
  dtype_of :: dtype
  elems :: "int list"

definition astype :: "ndarray \<Rightarrow> dtype \<Rightarrow> ndarray" where
  "astype a t = \<lparr>dtype_of = t, elems = map (cast t) (elems a)\<rparr>"

definition uint8 :: dtype where
  "uint8 = UInt W8"

text \<open>
  The store: arrays live at addresses (indices of the list), so that two names of one
  buffer are one address. A new array is allocated at the end of the store.
\<close>

type_synonym addr = nat
type_synonym heap = "ndarray list"

definition alloc :: "heap \<Rightarrow> ndarray \<Rightarrow> heap \<times> addr" where
  "alloc h a = (h @ [a], length h)"

text \<open>
  The element type of \<^verbatim>\<open>array op scalar\<close> for a Python integer scalar, for the bitwise
  operators and the shifts, in the numpy releases the library was written for (before
  2.0). numpy searches the loops of the operator in their order, \<^verbatim>\<open>int8\<close>, \<^verbatim>\<open>uint8\<close>,
  \<^verbatim>\<open>int16\<close>, \<^verbatim>\<open>uint16\<close>, up to \<^verbatim>\<open>uint64\<close>, for the first one whose type the element type
  of the array converts to safely and that holds the value of the scalar. When there is
  none (an unsigned 64-bit array and a negative scalar, a signed array and a scalar from
  \<open>2 ^ 63\<close>) numpy raises \<^verbatim>\<open>TypeError\<close>. For a scalar beyond 64 bits numpy works on arrays of
  Python objects, which the model does not cover: \<open>ObjectArray\<close>.
\<close>

fun can_cast :: "dtype \<Rightarrow> dtype \<Rightarrow> bool" where
  "can_cast (UInt a) (UInt b) = (nbits a \<le> nbits b)"
| "can_cast (UInt a) (SInt b) = (nbits a < nbits b)"
| "can_cast (SInt a) (SInt b) = (nbits a \<le> nbits b)"
| "can_cast (SInt a) (UInt b) = False"

definition loops :: "dtype list" where
  "loops = [SInt W8, UInt W8, SInt W16, UInt W16, SInt W32, UInt W32, SInt W64, UInt W64]"

definition result_type :: "dtype \<Rightarrow> int \<Rightarrow> error + dtype" where
  "result_type t s =
     (if s < - (2 ^ 63) \<or> 2 ^ 64 \<le> s then Inl ObjectArray
      else case find (\<lambda>T. can_cast t T \<and> in_range T s) loops of
             None \<Rightarrow> Inl TypeError
           | Some T \<Rightarrow> Inr T)"

text \<open>
  Between two arrays the search gives the smallest type that both element types convert
  to safely: the wider of two types of the same sign, a signed type wider than the
  unsigned one otherwise. No integer type holds both \<^verbatim>\<open>uint64\<close> and a signed type, and the
  bitwise operators have no loop for \<^verbatim>\<open>float64\<close>: numpy raises \<^verbatim>\<open>TypeError\<close>.
\<close>

definition wider :: "width \<Rightarrow> width \<Rightarrow> width" where
  "wider a b = (if nbits a \<le> nbits b then b else a)"

fun twice :: "width \<Rightarrow> width option" where
  "twice W8 = Some W16"
| "twice W16 = Some W32"
| "twice W32 = Some W64"
| "twice W64 = None"

fun promote_types :: "dtype \<Rightarrow> dtype \<Rightarrow> dtype option" where
  "promote_types (UInt a) (UInt b) = Some (UInt (wider a b))"
| "promote_types (SInt a) (SInt b) = Some (SInt (wider a b))"
| "promote_types (UInt a) (SInt b) =
     (if nbits a < nbits b then Some (SInt b) else map_option SInt (twice a))"
| "promote_types (SInt a) (UInt b) =
     (if nbits b < nbits a then Some (SInt a) else map_option SInt (twice b))"

text \<open>
  The elementwise operators between an array and a Python integer. \<^verbatim>\<open>&\<close> is exact in
  the type of the loop. numpy's \<^verbatim>\<open>>>\<close> does not raise for a negative count: its guarded
  loop gives 0 for a count outside the width of the type when the element is not negative
  (and -1 when it is). numpy's \<^verbatim>\<open><<\<close> keeps the low bits that fit the type of the loop.
\<close>

definition np_and :: "ndarray \<Rightarrow> int \<Rightarrow> error + ndarray" where
  "np_and a s =
     (case result_type (dtype_of a) s of
        Inl e \<Rightarrow> Inl e
      | Inr t \<Rightarrow> Inr \<lparr>dtype_of = t, elems = map (\<lambda>x. x AND s) (elems a)\<rparr>)"

definition np_right_shift :: "ndarray \<Rightarrow> int \<Rightarrow> error + ndarray" where
  "np_right_shift a s =
     (case result_type (dtype_of a) s of
        Inl e \<Rightarrow> Inl e
      | Inr t \<Rightarrow> Inr \<lparr>dtype_of = t, elems =
          map (\<lambda>x. if s < 0 then (if x < 0 then - 1 else 0) else drop_bit (nat s) x) (elems a)\<rparr>)"

definition np_left_shift :: "ndarray \<Rightarrow> int \<Rightarrow> error + ndarray" where
  "np_left_shift a s =
     (case result_type (dtype_of a) s of
        Inl e \<Rightarrow> Inl e
      | Inr t \<Rightarrow> Inr \<lparr>dtype_of = t, elems =
          map (\<lambda>x. if s < 0 then 0 else cast t (push_bit (nat s) x)) (elems a)\<rparr>)"

text \<open>
  Elementwise \<^verbatim>\<open>|\<close> of two arrays broadcasts: one-dimensional operands must have the
  same length, or one of them has length one.
\<close>

definition broadcast2 :: "(int \<Rightarrow> int \<Rightarrow> int) \<Rightarrow> int list \<Rightarrow> int list \<Rightarrow> error + int list" where
  "broadcast2 f xs ys =
     (if length xs = length ys then Inr (map2 f xs ys)
      else if length ys = 1 then Inr (map (\<lambda>x. f x (hd ys)) xs)
      else if length xs = 1 then Inr (map (\<lambda>y. f (hd xs) y) ys)
      else Inl (ValueError BroadcastMismatch))"

definition np_or :: "ndarray \<Rightarrow> ndarray \<Rightarrow> error + ndarray" where
  "np_or a b =
     (case promote_types (dtype_of a) (dtype_of b) of
        None \<Rightarrow> Inl TypeError
      | Some t \<Rightarrow>
          (case broadcast2 (OR) (elems a) (elems b) of
             Inl e \<Rightarrow> Inl e
           | Inr vs \<Rightarrow> Inr \<lparr>dtype_of = t, elems = vs\<rparr>))"

text \<open>
  The values of a one-dimensional array as they take part in an elementwise operation
  with an array of \<open>n\<close> elements (numpy's \<^verbatim>\<open>broadcast_to\<close>).
\<close>

definition broadcast_to :: "int list \<Rightarrow> nat \<Rightarrow> int list" where
  "broadcast_to ys n = (if length ys = n then ys else replicate n (hd ys))"

text \<open>
  The assignment \<^verbatim>\<open>array[:] = values\<close>: the values are converted to the element type of
  the destination and written into its buffer; they must have its length, or length one.
\<close>

definition assign_slice :: "heap \<Rightarrow> addr \<Rightarrow> ndarray \<Rightarrow> heap \<times> (error + unit)" where
  "assign_slice h a v =
     (let n = length (elems (h ! a)); t = dtype_of (h ! a) in
      if length (elems v) = n then (h[a := astype v t], Inr ())
      else if length (elems v) = 1
        then (h[a := astype \<lparr>dtype_of = dtype_of v, elems = replicate n (hd (elems v))\<rparr> t], Inr ())
      else (h, Inl (ValueError BroadcastMismatch)))"

text \<open>\<^verbatim>\<open>array.max()\<close>: numpy raises \<^verbatim>\<open>ValueError\<close> on an array without elements.\<close>

definition np_max :: "ndarray \<Rightarrow> error + int" where
  "np_max a =
     (case elems a of [] \<Rightarrow> Inl (ValueError ZeroSizeReduction) | x # ys \<Rightarrow> Inr (fold max ys x))"

text \<open>Python's \<^verbatim>\<open>>>\<close> on integers raises \<^verbatim>\<open>ValueError\<close> for a negative shift count.\<close>

definition py_rshift :: "int \<Rightarrow> int \<Rightarrow> error + int" where
  "py_rshift v s = (if s < 0 then Inl (ValueError NegativeShiftCount) else Inr (drop_bit (nat s) v))"

subsection \<open>least_significant_bit\<close>

text \<open>
  \<^verbatim>\<open>int.bit_length()\<close>: the number of bits of the absolute value.
  \<^verbatim>\<open>least_significant_bit(val)\<close> is \<^verbatim>\<open>(val & -val).bit_length() - 1\<close>; it has no check
  of its argument.
\<close>

fun bit_length_nat :: "nat \<Rightarrow> nat" where
  "bit_length_nat n = (if n = 0 then 0 else Suc (bit_length_nat (n div 2)))"

declare bit_length_nat.simps [simp del]

definition bit_length :: "int \<Rightarrow> int" where
  "bit_length v = int (bit_length_nat (nat \<bar>v\<bar>))"

definition least_significant_bit :: "int \<Rightarrow> int" where
  "least_significant_bit val = bit_length (val AND - val) - 1"

subsection \<open>unpack\<close>

text \<open>
  \<^verbatim>\<open>unpack(source_array, mask, dtype=np.uint8)\<close> returns
  \<^verbatim>\<open>((source_array & mask) >> lsb).astype(dtype)\<close>, a new array.
\<close>

definition unpack :: "heap \<Rightarrow> addr \<Rightarrow> int \<Rightarrow> dtype \<Rightarrow> heap \<times> (error + addr)" where
  "unpack h source_array msk dtype =
     (let lsb = least_significant_bit msk in
      case np_and (h ! source_array) msk of
        Inl e \<Rightarrow> (h, Inl e)
      | Inr t1 \<Rightarrow>
     (case np_right_shift t1 lsb of
        Inl e \<Rightarrow> (h, Inl e)
      | Inr t2 \<Rightarrow>
          (let (h', r) = alloc h (astype t2 dtype) in (h', Inr r))))"

subsection \<open>pack\<close>

text \<open>
  \<^verbatim>\<open>pack(array, sub_field_array, mask, inplace=False)\<close>. The check of the maximum comes
  first. With \<^verbatim>\<open>inplace\<close> the two slice assignments write into the buffer of the
  argument and the call returns \<^verbatim>\<open>None\<close>; the second statement reads both buffers
  again, after the first write. Without \<^verbatim>\<open>inplace\<close> the local name is rebound to the
  new array \<^verbatim>\<open>array & ~mask\<close>, whose element type is that of the loop, and a new array
  is returned. \<open>packed_bits\<close> is the subexpression
  \<^verbatim>\<open>((sub_field_array << lsb) & mask).astype(array.dtype)\<close> of both branches.
\<close>

definition packed_bits :: "ndarray \<Rightarrow> int \<Rightarrow> int \<Rightarrow> dtype \<Rightarrow> error + ndarray" where
  "packed_bits sub_field_array lsb msk t =
     (case np_left_shift sub_field_array lsb of
        Inl e \<Rightarrow> Inl e
      | Inr s1 \<Rightarrow>
     (case np_and s1 msk of
        Inl e \<Rightarrow> Inl e
      | Inr s2 \<Rightarrow> Inr (astype s2 t)))"

definition pack :: "heap \<Rightarrow> addr \<Rightarrow> addr \<Rightarrow> int \<Rightarrow> bool \<Rightarrow> heap \<times> (error + addr option)" where
  "pack h array sub_field_array msk inplace =
     (let lsb = least_significant_bit msk in
      case py_rshift msk lsb of
        Inl e \<Rightarrow> (h, Inl e)
      | Inr max_value \<Rightarrow>
     (case np_max (h ! sub_field_array) of
        Inl e \<Rightarrow> (h, Inl e)
      | Inr m \<Rightarrow>
      if m > max_value then (h, Inl (OverflowError (Greater m max_value)))
      else if inplace then
        (case np_and (h ! array) (NOT msk) of
           Inl e \<Rightarrow> (h, Inl e)
         | Inr t1 \<Rightarrow>
        (case assign_slice h array t1 of
           (h1, Inl e) \<Rightarrow> (h1, Inl e)
         | (h1, Inr _) \<Rightarrow>
        (case packed_bits (h1 ! sub_field_array) lsb msk (dtype_of (h1 ! array)) of
           Inl e \<Rightarrow> (h1, Inl e)
         | Inr s \<Rightarrow>
        (case np_or (h1 ! array) s of
           Inl e \<Rightarrow> (h1, Inl e)
         | Inr t2 \<Rightarrow>
        (case assign_slice h1 array t2 of
           (h2, Inl e) \<Rightarrow> (h2, Inl e)
         | (h2, Inr _) \<Rightarrow> (h2, Inr None))))))
      else
        (case np_and (h ! array) (NOT msk) of
           Inl e \<Rightarrow> (h, Inl e)
         | Inr array' \<Rightarrow>
        (case packed_bits (h ! sub_field_array) lsb msk (dtype_of array') of
           Inl e \<Rightarrow> (h, Inl e)
         | Inr s \<Rightarrow>
        (case np_or array' s of
           Inl e \<Rightarrow> (h, Inl e)
         | Inr res \<Rightarrow> (let (h', r) = alloc h res in (h', Inr (Some r))))))))"

subsection \<open>Point records and point formats\<close>

text \<open>
  A point record is a numpy structured array: a number of records and, for each field
  name of its \<^verbatim>\<open>dtype\<close> (in order), a column. \<^verbatim>\<open>a[name]\<close> is a view of the column, so
  it is the address of the column's buffer; numpy raises \<^verbatim>\<open>ValueError\<close> for a name
  that is no field. \<^verbatim>\<open>a[name] = values\<close> converts the values to the element type of the
  field and writes them into the column. \<^verbatim>\<open>np.zeros_like(a, dtype)\<close> is a new array with
  the shape of \<open>a\<close>, the fields of \<open>dtype\<close> and every element zero.
\<close>

record sarray =
  shape :: nat
  columns :: "(string \<times> addr) list"

definition names :: "sarray \<Rightarrow> string list" where
  "names a = map fst (columns a)"

definition getitem :: "sarray \<Rightarrow> string \<Rightarrow> error + addr" where
  "getitem a name =
     (case map_of (columns a) name of
        None \<Rightarrow> Inl (ValueError (NoField name))
      | Some c \<Rightarrow> Inr c)"

definition setitem :: "heap \<Rightarrow> sarray \<Rightarrow> string \<Rightarrow> addr \<Rightarrow> heap \<times> (error + unit)" where
  "setitem h a name v =
     (case getitem a name of
        Inl e \<Rightarrow> (h, Inl e)
      | Inr c \<Rightarrow> assign_slice h c (h ! v))"

definition zeros_like :: "heap \<Rightarrow> sarray \<Rightarrow> (string \<times> dtype) list \<Rightarrow> heap \<times> sarray" where
  "zeros_like h a dtype =
     (h @ map (\<lambda>(name, t). \<lparr>dtype_of = t, elems = replicate (shape a) 0\<rparr>) dtype,
      \<lparr>shape = shape a, columns = zip (map fst dtype) [length h ..< length h + length dtype]\<rparr>)"

text \<open>
  The class of the point format is not part of the module; the module reads two of its
  attributes: \<^verbatim>\<open>composed_fields\<close>, a dictionary from the name of a composed field to the
  list of its sub-fields (each with a \<^verbatim>\<open>name\<close> and a \<^verbatim>\<open>mask\<close>), and \<^verbatim>\<open>dtype\<close>, the fields
  and element types of the array that the function builds. Both \<^verbatim>\<open>unpack_sub_fields\<close> and
  \<^verbatim>\<open>repack_sub_fields\<close> take the fields of their result from \<^verbatim>\<open>point_format.dtype\<close>.
\<close>

record sub_field =
  sf_name :: string
  sf_mask :: int

record point_format =
  composed_fields :: "(string \<times> sub_field list) list"
  dtype :: "(string \<times> dtype) list"

subsection \<open>unpack_sub_fields\<close>

text \<open>
  The inner loop of \<^verbatim>\<open>unpack_sub_fields\<close> over the sub-fields of one composed dimension,
  the loop over \<^verbatim>\<open>data.dtype.names\<close>, and the function. The right-hand side of an
  assignment is evaluated before the field of \<^verbatim>\<open>point_record\<close> is looked up.
\<close>

fun unpack_composed_dim ::
  "heap \<Rightarrow> sarray \<Rightarrow> string \<Rightarrow> sub_field list \<Rightarrow> sarray \<Rightarrow> heap \<times> (error + unit)" where
  "unpack_composed_dim h data dim_name [] point_record = (h, Inr ())"
| "unpack_composed_dim h data dim_name (sub_field # rest) point_record =
     (case getitem data dim_name of
        Inl e \<Rightarrow> (h, Inl e)
      | Inr src \<Rightarrow>
     (case unpack h src (sf_mask sub_field) uint8 of
        (h1, Inl e) \<Rightarrow> (h1, Inl e)
      | (h1, Inr r) \<Rightarrow>
     (case setitem h1 point_record (sf_name sub_field) r of
        (h2, Inl e) \<Rightarrow> (h2, Inl e)
      | (h2, Inr _) \<Rightarrow> unpack_composed_dim h2 data dim_name rest point_record)))"

fun unpack_dims ::
  "heap \<Rightarrow> sarray \<Rightarrow> (string \<times> sub_field list) list \<Rightarrow> string list \<Rightarrow> sarray
     \<Rightarrow> heap \<times> (error + unit)" where
  "unpack_dims h data composed_dims [] point_record = (h, Inr ())"
| "unpack_dims h data composed_dims (dim_name # rest) point_record =
     (case map_of composed_dims dim_name of
        Some sub_fields \<Rightarrow>
          (case unpack_composed_dim h data dim_name sub_fields point_record of
             (h1, Inl e) \<Rightarrow> (h1, Inl e)
           | (h1, Inr _) \<Rightarrow> unpack_dims h1 data composed_dims rest point_record)
      | None \<Rightarrow>
          (case getitem data dim_name of
             Inl e \<Rightarrow> (h, Inl e)
           | Inr src \<Rightarrow>
          (case setitem h point_record dim_name src of
             (h1, Inl e) \<Rightarrow> (h1, Inl e)
           | (h1, Inr _) \<Rightarrow> unpack_dims h1 data composed_dims rest point_record)))"

definition unpack_sub_fields :: "heap \<Rightarrow> sarray \<Rightarrow> point_format \<Rightarrow> heap \<times> (error + sarray)" where
  "unpack_sub_fields h data point_format =
     (let composed_dims = composed_fields point_format;
          (h0, point_record) = zeros_like h data (dtype point_format)
      in case unpack_dims h0 data composed_dims (names data) point_record of
           (h1, Inl e) \<Rightarrow> (h1, Inl e)
         | (h1, Inr _) \<Rightarrow> (h1, Inr point_record))"

subsection \<open>repack_sub_fields\<close>

text \<open>
  \<^verbatim>\<open>_repack_composed_dim\<close> packs the sub-fields one after the other into the column of the
  composed dimension, in place; an \<^verbatim>\<open>OverflowError\<close> of \<^verbatim>\<open>pack\<close> is raised again with the
  names of the sub-field and of the dimension in front of its message, every other
  exception passes unchanged. \<^verbatim>\<open>repack_sub_fields\<close> loops over the field names of the
  array it builds.
\<close>

fun repack_composed_dim ::
  "heap \<Rightarrow> string \<Rightarrow> sub_field list \<Rightarrow> sarray \<Rightarrow> sarray \<Rightarrow> heap \<times> (error + unit)" where
  "repack_composed_dim h dim_name [] repacked_array structured_array = (h, Inr ())"
| "repack_composed_dim h dim_name (sub_field # rest) repacked_array structured_array =
     (case getitem repacked_array dim_name of
        Inl e \<Rightarrow> (h, Inl e)
      | Inr dst \<Rightarrow>
     (case getitem structured_array (sf_name sub_field) of
        Inl e \<Rightarrow> (h, Inl e)
      | Inr src \<Rightarrow>
     (case pack h dst src (sf_mask sub_field) True of
        (h1, Inl (OverflowError e)) \<Rightarrow>
          (h1, Inl (OverflowError (Repacking (sf_name sub_field) dim_name e)))
      | (h1, Inl e) \<Rightarrow> (h1, Inl e)
      | (h1, Inr _) \<Rightarrow>
          repack_composed_dim h1 dim_name rest repacked_array structured_array)))"

fun repack_dims ::
  "heap \<Rightarrow> sarray \<Rightarrow> (string \<times> sub_field list) list \<Rightarrow> string list \<Rightarrow> sarray
     \<Rightarrow> heap \<times> (error + unit)" where
  "repack_dims h structured_array composed_dims [] repacked_array = (h, Inr ())"
| "repack_dims h structured_array composed_dims (dim_name # rest) repacked_array =
     (case map_of composed_dims dim_name of
        Some sub_fields \<Rightarrow>
          (case repack_composed_dim h dim_name sub_fields repacked_array structured_array of
             (h1, Inl e) \<Rightarrow> (h1, Inl e)
           | (h1, Inr _) \<Rightarrow> repack_dims h1 structured_array composed_dims rest repacked_array)
      | None \<Rightarrow>
          (case getitem structured_array dim_name of
             Inl e \<Rightarrow> (h, Inl e)
           | Inr src \<Rightarrow>
          (case setitem h repacked_array dim_name src of
             (h1, Inl e) \<Rightarrow> (h1, Inl e)
           | (h1, Inr _) \<Rightarrow> repack_dims h1 structured_array composed_dims rest repacked_array)))"

definition repack_sub_fields :: "heap \<Rightarrow> sarray \<Rightarrow> point_format \<Rightarrow> heap \<times> (error + sarray)" where
  "repack_sub_fields h structured_array point_format =
     (let composed_dims = composed_fields point_format;
          (h0, repacked_array) = zeros_like h structured_array (dtype point_format)
      in case repack_dims h0 structured_array composed_dims (names repacked_array) repacked_array of
           (h1, Inl e) \<Rightarrow> (h1, Inl e)
         | (h1, Inr _) \<Rightarrow> (h1, Inr repacked_array))"

subsection \<open>Notions for the statements about point records\<close>

text \<open>
  What a structured array holds in a store: its number of records and, for each field in
  order, the name and the column. \<open>field\<close> is the column of a name. An array is well
  formed in a store when its field names are distinct, its columns are distinct buffers
  of the store with one element for each record, and every element is a value of the
  element type of its column.
\<close>

definition contents :: "heap \<Rightarrow> sarray \<Rightarrow> nat \<times> (string \<times> ndarray) list" where
  "contents h a = (shape a, map (\<lambda>(name, c). (name, h ! c)) (columns a))"

definition field :: "heap \<Rightarrow> sarray \<Rightarrow> string \<Rightarrow> ndarray" where
  "field h a name = h ! the (map_of (columns a) name)"

definition schema :: "heap \<Rightarrow> sarray \<Rightarrow> (string \<times> dtype) list" where
  "schema h a = map (\<lambda>(name, c). (name, dtype_of (h ! c))) (columns a)"

definition wf_sarray :: "heap \<Rightarrow> sarray \<Rightarrow> bool" where
  "wf_sarray h a \<longleftrightarrow>
     distinct (map fst (columns a)) \<and> distinct (map snd (columns a))
     \<and> (\<forall>(name, c)\<in>set (columns a).
           c < length h \<and> length (elems (h ! c)) = shape a
           \<and> (\<forall>v\<in>set (elems (h ! c)). in_range (dtype_of (h ! c)) v))"

text \<open>
  The array that \<open>unpack\<close> builds from a column with the default target type, and the
  elements that \<open>pack\<close> writes in place into a destination of element type \<open>t\<close> with
  elements \<open>es\<close>, for a sub-field array of the same length.
\<close>

definition unpacked :: "ndarray \<Rightarrow> int \<Rightarrow> ndarray" where
  "unpacked a msk =
     \<lparr>dtype_of = uint8,
      elems = map (\<lambda>x. cast uint8 (drop_bit (nat (least_significant_bit msk)) (x AND msk)))
                (elems a)\<rparr>"

definition pack_values :: "dtype \<Rightarrow> ndarray \<Rightarrow> int \<Rightarrow> int list \<Rightarrow> int list" where
  "pack_values t sub msk es =
     map2 (\<lambda>x v. cast t ((x AND NOT msk)
                     OR (cast (dtype_of sub) (push_bit (nat (least_significant_bit msk)) v) AND msk)))
       es (elems sub)"

text \<open>
  When \<open>pack\<close> succeeds in place on a destination of element type \<open>t\<close> with \<open>n\<close>
  elements that is not the buffer of the sub-field array: the mask is not zero, the
  sub-field array has \<open>n\<close> elements, at least one and none above \<open>mask >> lsb\<close>, and numpy
  has integer types for \<^verbatim>\<open>array & ~mask\<close> and for \<^verbatim>\<open>(sub_field_array << lsb) & mask\<close>.
\<close>

definition packable :: "dtype \<Rightarrow> nat \<Rightarrow> ndarray \<Rightarrow> int \<Rightarrow> bool" where
  "packable t n sub msk \<longleftrightarrow>
     msk \<noteq> 0 \<and> elems sub \<noteq> [] \<and> length (elems sub) = n
     \<and> (\<forall>v\<in>set (elems sub). v \<le> drop_bit (nat (least_significant_bit msk)) msk)
     \<and> (\<exists>t1. result_type t (NOT msk) = Inr t1)
     \<and> (\<exists>t3. result_type (dtype_of sub) msk = Inr t3)"

text \<open>
  The column that \<open>repack_sub_fields\<close> leaves for the dimension \<open>d\<close>, from the columns
  \<open>src\<close> of its input by name and the column \<open>old\<close> that \<open>zeros_like\<close> has allocated: the
  input column converted when the dimension is not composed, the sub-fields packed one
  after the other when it is.
\<close>

definition repacked_column ::
  "(string \<Rightarrow> ndarray) \<Rightarrow> (string \<times> sub_field list) list \<Rightarrow> string \<Rightarrow> ndarray \<Rightarrow> ndarray" where
  "repacked_column src composed_dims d old =
     (case map_of composed_dims d of
        None \<Rightarrow> astype (src d) (dtype_of old)
      | Some sub_fields \<Rightarrow>
          \<lparr>dtype_of = dtype_of old,
           elems = fold (\<lambda>sf. pack_values (dtype_of old) (src (sf_name sf)) (sf_mask sf))
                     sub_fields (elems old)\<rparr>)"

text \<open>
  What \<open>repack_sub_fields\<close> needs for the dimension \<open>d\<close>: its input \<open>a\<close> has the field
  (with the length of the column \<open>old\<close> to fill) when the dimension is not composed, and
  has every sub-field, each one packable into the column, when it is.
\<close>

definition repackable ::
  "(string \<Rightarrow> ndarray) \<Rightarrow> sarray \<Rightarrow> (string \<times> sub_field list) list \<Rightarrow> string \<Rightarrow> ndarray
     \<Rightarrow> bool" where
  "repackable src a composed_dims d old \<longleftrightarrow>
     (case map_of composed_dims d of
        None \<Rightarrow> map_of (columns a) d \<noteq> None \<and> length (elems (src d)) = length (elems old)
      | Some sub_fields \<Rightarrow>
          (\<forall>sf\<in>set sub_fields. map_of (columns a) (sf_name sf) \<noteq> None
             \<and> packable (dtype_of old) (length (elems old)) (src (sf_name sf)) (sf_mask sf)))"

text \<open>
  What \<open>unpack_sub_fields\<close> needs for the dimension \<open>d\<close> of its input, with column
  \<open>src d\<close>, and what it leaves: \<open>old\<close> and \<open>new\<close> are the columns of the result by name,
  before and after the dimension is handled. Each sub-field needs a mask that is not zero
  and for which numpy has an integer type for \<^verbatim>\<open>source_array & mask\<close>.
\<close>

definition unpackable ::
  "(string \<Rightarrow> ndarray) \<Rightarrow> (string \<times> sub_field list) list \<Rightarrow> string \<Rightarrow> (string \<Rightarrow> ndarray)
     \<Rightarrow> bool" where
  "unpackable src composed_dims d old \<longleftrightarrow>
     (case map_of composed_dims d of
        None \<Rightarrow> length (elems (src d)) = length (elems (old d))
      | Some sub_fields \<Rightarrow>
          (\<forall>sf\<in>set sub_fields. sf_mask sf \<noteq> 0
             \<and> (\<exists>t. result_type (dtype_of (src d)) (sf_mask sf) = Inr t)
             \<and> length (elems (src d)) = length (elems (old (sf_name sf)))))"

definition unpacked_dim ::
  "(string \<Rightarrow> ndarray) \<Rightarrow> (string \<times> sub_field list) list \<Rightarrow> string \<Rightarrow> (string \<Rightarrow> ndarray)
     \<Rightarrow> (string \<Rightarrow> ndarray) \<Rightarrow> bool" where
  "unpacked_dim src composed_dims d old new \<longleftrightarrow>
     (case map_of composed_dims d of
        None \<Rightarrow> new d = astype (src d) (dtype_of (old d))
      | Some sub_fields \<Rightarrow>
          (\<forall>sf\<in>set sub_fields.
             new (sf_name sf) = astype (unpacked (src d) (sf_mask sf)) (dtype_of (old (sf_name sf)))))"

text \<open>
  The names that \<open>unpack_sub_fields\<close> writes for a dimension: the dimension itself when
  it is not composed, the names of its sub-fields when it is; and for a list of
  dimensions.
\<close>

definition dim_names :: "(string \<times> sub_field list) list \<Rightarrow> string \<Rightarrow> string list" where
  "dim_names composed_dims d =
     (case map_of composed_dims d of
        None \<Rightarrow> [d]
      | Some sub_fields \<Rightarrow> map sf_name sub_fields)"

definition written_names :: "(string \<times> sub_field list) list \<Rightarrow> string list \<Rightarrow> string list" where
  "written_names composed_dims ns = concat (map (dim_names composed_dims) ns)"

text \<open>
  Conditions on the masks of a composed field held in one byte: each mask is a pattern of
  bits of the byte, not zero; the masks cover the byte; no two masks share a bit; a mask
  is a run of consecutive bits.
\<close>

definition byte_mask :: "int \<Rightarrow> bool" where
  "byte_mask msk \<longleftrightarrow> 0 < msk \<and> msk < 256"

definition covers_byte :: "sub_field list \<Rightarrow> bool" where
  "covers_byte sub_fields \<longleftrightarrow> fold (\<lambda>sf m. m OR sf_mask sf) sub_fields 0 = 255"

fun disjoint_masks :: "sub_field list \<Rightarrow> bool" where
  "disjoint_masks [] = True"
| "disjoint_masks (sf # rest) =
     (list_all (\<lambda>sf'. sf_mask sf AND sf_mask sf' = 0) rest \<and> disjoint_masks rest)"

definition contiguous_mask :: "int \<Rightarrow> bool" where
  "contiguous_mask msk \<longleftrightarrow>
     (let q = drop_bit (nat (least_significant_bit msk)) msk
      in q = 2 ^ bit_length_nat (nat q) - 1)"

text \<open>
  The column that \<open>zeros_like\<close> allocates for the name \<open>w\<close> of a \<open>dtype\<close>, for \<open>n\<close> records.
\<close>

definition zero_column :: "(string \<times> dtype) list \<Rightarrow> nat \<Rightarrow> string \<Rightarrow> ndarray" where
  "zero_column dt n w = \<lparr>dtype_of = the (map_of dt w), elems = replicate n 0\<rparr>"

text \<open>
  A batch \<open>x\<close> in the physical layout, to be unpacked into the fields \<open>expanded\<close>: it is well
  formed and has at least one record; the names that \<open>unpack_sub_fields\<close> writes are
  distinct fields of \<open>expanded\<close>; a field that is not composed has the same element type
  in \<open>expanded\<close>; a composed field is a column of bytes, the masks of its sub-fields are
  patterns of bits of the byte that together cover it, and the sub-fields are columns of
  bytes of \<open>expanded\<close>.
\<close>

definition physical_batch ::
  "heap \<Rightarrow> sarray \<Rightarrow> (string \<times> sub_field list) list \<Rightarrow> (string \<times> dtype) list \<Rightarrow> bool" where
  "physical_batch h x composed_dims expanded \<longleftrightarrow>
     wf_sarray h x \<and> 0 < shape x \<and> distinct (map fst expanded)
     \<and> distinct (written_names composed_dims (names x))
     \<and> set (written_names composed_dims (names x)) \<subseteq> set (map fst expanded)
     \<and> (\<forall>d\<in>set (names x).
          case map_of composed_dims d of
            None \<Rightarrow> map_of expanded d = Some (dtype_of (field h x d))
          | Some sub_fields \<Rightarrow>
              dtype_of (field h x d) = uint8 \<and> covers_byte sub_fields
              \<and> (\<forall>sf\<in>set sub_fields.
                    byte_mask (sf_mask sf) \<and> map_of expanded (sf_name sf) = Some uint8))"

text \<open>
  A batch \<open>x\<close> in the expanded layout, to be repacked into the fields \<open>physical\<close>: it is well
  formed and has at least one record; its fields are exactly the names that
  \<open>unpack_sub_fields\<close> writes for \<open>physical\<close>, each once; a field that is not composed
  has the same element type in \<open>physical\<close>; a composed field is a column of bytes, the
  masks of its sub-fields are disjoint runs of consecutive bits of the byte, and each
  sub-field is a column of bytes of \<open>x\<close> with no value above \<open>mask >> lsb\<close>.
\<close>

definition expanded_batch ::
  "heap \<Rightarrow> sarray \<Rightarrow> (string \<times> sub_field list) list \<Rightarrow> (string \<times> dtype) list \<Rightarrow> bool" where
  "expanded_batch h x composed_dims physical \<longleftrightarrow>
     wf_sarray h x \<and> 0 < shape x \<and> distinct (map fst physical)
     \<and> distinct (written_names composed_dims (map fst physical))
     \<and> set (written_names composed_dims (map fst physical)) = set (names x)
     \<and> (\<forall>d\<in>set (map fst physical).
          case map_of composed_dims d of
            None \<Rightarrow> map_of physical d = Some (dtype_of (field h x d))
          | Some sub_fields \<Rightarrow>
              map_of physical d = Some uint8 \<and> disjoint_masks sub_fields
              \<and> (\<forall>sf\<in>set sub_fields.
                    byte_mask (sf_mask sf) \<and> contiguous_mask (sf_mask sf)
                    \<and> dtype_of (field h x (sf_name sf)) = uint8
                    \<and> (\<forall>v\<in>set (elems (field h x (sf_name sf))).
                          v \<le> drop_bit (nat (least_significant_bit (sf_mask sf))) (sf_mask sf))))"

section \<open>Properties\<close>

subsection \<open>The lowest set bit\<close>

lemma bit_length_nat_pow2: "bit_length_nat (2 ^ k) = Suc k"
proof (induction k)
  case 0
  show ?case by (simp add: bit_length_nat.simps)
next
  case (Suc k)
  have "bit_length_nat (2 ^ Suc k) = Suc (bit_length_nat (2 ^ Suc k div 2))"
    by (subst bit_length_nat.simps) simp
  then show ?case using Suc by simp
qed

lemma and_neg_odd: "odd (x::int) \<Longrightarrow> x AND - x = 1"
proof -
  assume o: "odd x"
  have "x AND - x = of_bool (odd x \<and> odd (- x)) + 2 * ((x div 2) AND ((- x) div 2))"
    by (rule and_rec)
  moreover have "(- x) div 2 = NOT (x div 2)"
    using o by (auto simp: not_int_def elim!: oddE)
  ultimately show ?thesis using o by simp
qed

lemma and_neg_even: "(2 * y) AND - (2 * y) = 2 * (y AND - (y::int))"
proof -
  have "(2 * y) AND - (2 * y) =
      of_bool (odd (2 * y) \<and> odd (- (2 * y))) + 2 * (((2 * y) div 2) AND ((- (2 * y)) div 2))"
    by (rule and_rec)
  moreover have "(- (2 * y)) div 2 = - y"
    by (metis minus_mult_right nonzero_mult_div_cancel_left zero_neq_numeral)
  ultimately show ?thesis by simp
qed

lemma lowest_set_bit:
  "(x::int) \<noteq> 0 \<Longrightarrow> \<exists>k. x AND - x = 2 ^ k \<and> bit x k \<and> (\<forall>i<k. \<not> bit x i)"
proof (induction "nat \<bar>x\<bar>" arbitrary: x rule: less_induct)
  case less
  show ?case
  proof (cases "odd x")
    case True
    then have "x AND - x = 2 ^ 0 \<and> bit x 0 \<and> (\<forall>i<0. \<not> bit x i)"
      by (simp add: and_neg_odd bit_0)
    then show ?thesis by blast
  next
    case False
    then obtain y where y: "x = 2 * y" by (auto elim: evenE)
    with less.prems have "y \<noteq> 0" by simp
    moreover have "nat \<bar>y\<bar> < nat \<bar>x\<bar>" using y \<open>y \<noteq> 0\<close> by simp
    ultimately obtain k where k: "y AND - y = 2 ^ k" "bit y k" "\<forall>i<k. \<not> bit y i"
      using less.hyps by blast
    have "x AND - x = 2 ^ Suc k" using k(1) y and_neg_even[of y] by simp
    moreover have "bit x (Suc k)" using k(2) y by (simp add: bit_Suc)
    moreover have "\<forall>i<Suc k. \<not> bit x i"
    proof (intro allI impI)
      fix i assume "i < Suc k"
      then show "\<not> bit x i" using k(3) y by (cases i) (simp_all add: bit_0 bit_Suc)
    qed
    ultimately show ?thesis by blast
  qed
qed

lemma least_significant_bit_zero: "least_significant_bit 0 = - 1"
  by (simp add: least_significant_bit_def bit_length_def bit_length_nat.simps)

lemma least_significant_bit_nonzero:
  assumes "msk \<noteq> 0"
  shows "\<exists>k. least_significant_bit msk = int k \<and> msk AND - msk = 2 ^ k \<and> bit msk k
    \<and> (\<forall>i<k. \<not> bit msk i)"
proof -
  obtain k where k: "msk AND - msk = 2 ^ k" "bit msk k" "\<forall>i<k. \<not> bit msk i"
    using lowest_set_bit[OF assms] by blast
  have "least_significant_bit msk = int k"
    by (simp add: least_significant_bit_def bit_length_def k(1) nat_power_eq bit_length_nat_pow2)
  with k show ?thesis by blast
qed

text \<open>
  Claim C5, as it holds on the code. For a mask that is not zero,
  \<open>least_significant_bit\<close> returns the index of the lowest set bit of the mask: the bit at
  that index is set and no bit below it is. For the mask zero it raises nothing: it
  returns -1.
\<close>

theorem least_significant_bit_lowest_set:
  "(msk \<noteq> 0 \<longrightarrow>
      0 \<le> least_significant_bit msk
      \<and> bit msk (nat (least_significant_bit msk))
      \<and> (\<forall>i<nat (least_significant_bit msk). \<not> bit msk i))
   \<and> least_significant_bit 0 = - 1"
proof (intro conjI impI)
  assume "msk \<noteq> 0"
  then obtain k where k: "least_significant_bit msk = int k" "bit msk k" "\<forall>i<k. \<not> bit msk i"
    using least_significant_bit_nonzero by blast
  show "0 \<le> least_significant_bit msk" using k(1) by simp
  show "bit msk (nat (least_significant_bit msk))" using k by simp
  show "\<forall>i<nat (least_significant_bit msk). \<not> bit msk i" using k by simp
next
  show "least_significant_bit 0 = - 1" by (rule least_significant_bit_zero)
qed

theorem least_significant_bit_lowest_set_witness:
  "(240::int) \<noteq> 0 \<and> least_significant_bit 240 = 4
   \<and> bit (240::int) (nat (least_significant_bit 240))"
proof -
  have e: "least_significant_bit 240 = 4" by code_simp
  show ?thesis using least_significant_bit_lowest_set [of 240] e by simp
qed

text \<open>
  Claim C5 as the specification states it fails at the mask zero: the call returns the
  integer -1, it does not fail.
\<close>

theorem least_significant_bit_zero_no_error: "least_significant_bit 0 = - 1"
  by (simp add: least_significant_bit_def bit_length_def bit_length_nat.simps)

subsection \<open>Types of the intermediate arrays\<close>

lemma find_Some_holds: "find P xs = Some x \<Longrightarrow> P x"
  by (induction xs) (auto split: if_splits)

lemma result_type_Inr: "result_type t s = Inr T \<Longrightarrow> can_cast t T \<and> in_range T s"
  by (auto simp: result_type_def split: if_splits option.splits dest: find_Some_holds)

lemma result_type_bounds:
  "result_type t s = Inr t' \<Longrightarrow> - (2 ^ 63) \<le> s \<and> s < 2 ^ 64"
  by (simp add: result_type_def split: if_splits)

lemma all_loops: "T \<in> set loops"
proof (cases T)
  case (UInt w)
  then show ?thesis by (cases w) (simp_all add: loops_def)
next
  case (SInt w)
  then show ?thesis by (cases w) (simp_all add: loops_def)
qed

lemma result_type_exists:
  assumes "can_cast t T" "in_range T s" "- (2 ^ 63) \<le> s" "s < 2 ^ 64"
  shows "\<exists>T'. result_type t s = Inr T'"
proof -
  have "find (\<lambda>T. can_cast t T \<and> in_range T s) loops \<noteq> None"
    using assms(1,2) all_loops [of T] by (auto simp: find_None_iff)
  then show ?thesis using assms(3,4) by (auto simp: result_type_def)
qed

lemma in_range_UInt_mono:
  assumes "nbits a \<le> nbits b" "in_range (UInt a) v"
  shows "in_range (UInt b) v"
proof -
  have "(2::int) ^ nbits a \<le> 2 ^ nbits b"
    by (rule power_increasing) (use assms(1) in simp_all)
  moreover have "0 \<le> v" "v < 2 ^ nbits a" using assms(2) by simp_all
  ultimately have "0 \<le> v \<and> v < 2 ^ nbits b" by linarith
  then show ?thesis by simp
qed

lemma in_range_SInt_mono:
  assumes "nbits a \<le> nbits b" "in_range (SInt a) v"
  shows "in_range (SInt b) v"
proof -
  have "(2::int) ^ (nbits a - 1) \<le> 2 ^ (nbits b - 1)"
    by (rule power_increasing) (use assms(1) in simp_all)
  moreover have "- (2 ^ (nbits a - 1)) \<le> v" "v < 2 ^ (nbits a - 1)" using assms(2) by simp_all
  ultimately have "- (2 ^ (nbits b - 1)) \<le> v \<and> v < 2 ^ (nbits b - 1)" by linarith
  then show ?thesis by simp
qed

lemma in_range_UInt_SInt:
  assumes "nbits a < nbits b" "in_range (UInt a) v"
  shows "in_range (SInt b) v"
proof -
  have "(2::int) ^ nbits a \<le> 2 ^ (nbits b - 1)"
    by (rule power_increasing) (use assms(1) in simp_all)
  moreover have "0 \<le> v" "v < 2 ^ nbits a" using assms(2) by simp_all
  moreover have "(0::int) \<le> 2 ^ (nbits b - 1)" by simp
  ultimately have "- (2 ^ (nbits b - 1)) \<le> v \<and> v < 2 ^ (nbits b - 1)" by linarith
  then show ?thesis by simp
qed

lemma can_cast_in_range:
  assumes "can_cast t T" "in_range t v"
  shows "in_range T v"
proof (cases t)
  case ta: (UInt a)
  show ?thesis
  proof (cases T)
    case (UInt b)
    then show ?thesis using assms ta in_range_UInt_mono [of a b v] by simp
  next
    case (SInt b)
    then show ?thesis using assms ta in_range_UInt_SInt [of a b v] by simp
  qed
next
  case ta: (SInt a)
  show ?thesis
  proof (cases T)
    case (UInt b)
    then show ?thesis using assms ta by simp
  next
    case (SInt b)
    then show ?thesis using assms ta in_range_SInt_mono [of a b v] by simp
  qed
qed

lemma can_cast_bits: "can_cast t T \<Longrightarrow> bits t \<le> bits T"
  by (cases t; cases T) simp_all

lemma can_cast_refl: "can_cast t t"
  by (cases t) simp_all

lemma can_cast_trans: "can_cast a b \<Longrightarrow> can_cast b c \<Longrightarrow> can_cast a c"
  by (cases a; cases b; cases c) simp_all


lemma least_significant_bit_less_64:
  assumes "msk \<noteq> 0" "- (2 ^ 63) \<le> msk" "msk < 2 ^ 64"
  shows "0 \<le> least_significant_bit msk \<and> least_significant_bit msk < 64"
proof -
  obtain k where k: "least_significant_bit msk = int k" "msk AND - msk = 2 ^ k"
    using least_significant_bit_nonzero [OF assms(1)] by blast
  have lt: "(2::int) ^ k < 2 ^ 64"
  proof (cases "0 \<le> msk")
    case True
    then have "msk AND - msk \<le> msk" by (rule AND_upper1)
    with k(2) assms(3) show ?thesis by simp
  next
    case False
    then have "0 \<le> - msk" by simp
    then have "msk AND - msk \<le> - msk" by (rule AND_upper2)
    with k(2) assms(2) show ?thesis by simp
  qed
  have "k < 64" by (rule power_less_imp_less_exp [OF _ lt]) simp
  with k(1) show ?thesis by simp
qed

lemma result_type_shift_count:
  assumes "0 \<le> s" "s < 64"
  shows "\<exists>t'. result_type t s = Inr t'"
proof (cases t)
  case (UInt w)
  have "in_range (UInt W64) s" using assms by simp
  moreover have "can_cast t (UInt W64)" using UInt by (cases w) simp_all
  ultimately show ?thesis using assms by (intro result_type_exists [of t "UInt W64"]) simp_all
next
  case (SInt w)
  have "in_range (SInt W64) s" using assms by simp
  moreover have "can_cast t (SInt W64)" using SInt by (cases w) simp_all
  ultimately show ?thesis using assms by (intro result_type_exists [of t "SInt W64"]) simp_all
qed

lemma unpack_eq:
  assumes "msk \<noteq> 0" "result_type (dtype_of (h ! source_array)) msk = Inr t"
  shows "unpack h source_array msk target =
    (h @ [\<lparr>dtype_of = target, elems =
        map (\<lambda>x. cast target (drop_bit (nat (least_significant_bit msk)) (x AND msk)))
          (elems (h ! source_array))\<rparr>], Inr (length h))"
proof -
  have b: "0 \<le> least_significant_bit msk" "least_significant_bit msk < 64"
    using least_significant_bit_less_64 [OF assms(1)] result_type_bounds [OF assms(2)] by auto
  obtain t' where t': "result_type t (least_significant_bit msk) = Inr t'"
    using result_type_shift_count [OF b] by blast
  show ?thesis
    using b(1) by (simp add: unpack_def np_and_def assms(2) np_right_shift_def t' astype_def alloc_def o_def Let_def)
qed

lemma lowest_set_bit_unique:
  assumes "bit (msk::int) k" "\<forall>i<k. \<not> bit msk i"
  shows "least_significant_bit msk = int k"
proof -
  from assms(1) have "msk \<noteq> 0" by auto
  then obtain j where j: "least_significant_bit msk = int j" "bit msk j" "\<forall>i<j. \<not> bit msk i"
    using least_significant_bit_nonzero by blast
  have "j = k" using assms j(2,3) by (meson linorder_neqE_nat)
  with j(1) show ?thesis by simp
qed

subsection \<open>pack: the check of the maximum\<close>

lemma np_max_nonempty: "elems a \<noteq> [] \<Longrightarrow> np_max a = Inr (Max (set (elems a)))"
proof (cases "elems a")
  case Nil
  moreover assume "elems a \<noteq> []"
  ultimately show ?thesis by simp
next
  case (Cons x ys)
  have "Max (set (x # ys)) = fold max ys x" by (rule Max.set_eq_fold)
  then show ?thesis by (simp add: np_max_def Cons)
qed

lemma np_max_empty: "elems a = [] \<Longrightarrow> np_max a = Inl (ValueError ZeroSizeReduction)"
  by (simp add: np_max_def)

lemma py_rshift_lsb:
  "msk \<noteq> 0 \<Longrightarrow> py_rshift msk (least_significant_bit msk)
     = Inr (drop_bit (nat (least_significant_bit msk)) msk)"
  using least_significant_bit_nonzero [of msk] by (auto simp: py_rshift_def)

lemma result_type_not_overflow: "result_type t s \<noteq> Inl (OverflowError m)"
  by (auto simp: result_type_def split: option.splits)

lemma np_and_not_overflow: "np_and a s \<noteq> Inl (OverflowError m)"
  using result_type_not_overflow by (auto simp: np_and_def split: sum.splits)

lemma np_left_shift_not_overflow: "np_left_shift a s \<noteq> Inl (OverflowError m)"
  using result_type_not_overflow by (auto simp: np_left_shift_def split: sum.splits)

lemma packed_bits_not_overflow: "packed_bits a l s t \<noteq> Inl (OverflowError m)"
  using np_and_not_overflow np_left_shift_not_overflow
  by (auto simp: packed_bits_def split: sum.splits)

lemma np_or_not_overflow: "np_or a b \<noteq> Inl (OverflowError m)"
  by (auto simp: np_or_def broadcast2_def split: option.splits sum.splits if_splits)

lemma assign_slice_not_overflow: "assign_slice h a v \<noteq> (h', Inl (OverflowError m))"
  by (auto simp: assign_slice_def Let_def)

lemma pack_overflow:
  assumes "msk \<noteq> 0" "elems (h ! s) \<noteq> []"
    "drop_bit (nat (least_significant_bit msk)) msk < Max (set (elems (h ! s)))"
  shows "pack h a s msk ip = (h, Inl (OverflowError
    (Greater (Max (set (elems (h ! s)))) (drop_bit (nat (least_significant_bit msk)) msk))))"
  using assms by (simp add: pack_def py_rshift_lsb np_max_nonempty)

lemma pack_no_overflow:
  assumes "msk \<noteq> 0" "elems (h ! s) \<noteq> []"
    "\<not> drop_bit (nat (least_significant_bit msk)) msk < Max (set (elems (h ! s)))"
  shows "pack h a s msk ip \<noteq> (h', Inl (OverflowError m))"
  using assms np_and_not_overflow packed_bits_not_overflow np_or_not_overflow
    assign_slice_not_overflow
  by (auto simp: pack_def py_rshift_lsb np_max_nonempty Let_def alloc_def
      split: sum.splits prod.splits)

subsection \<open>unpack\<close>

lemma result_type_mask_64:
  assumes "- (2 ^ 63) \<le> msk" "msk < 2 ^ 64" "t = UInt W64 \<longrightarrow> 0 \<le> msk"
    "\<forall>w. t = SInt w \<longrightarrow> msk < 2 ^ 63"
  shows "\<exists>T. result_type t msk = Inr T"
proof (cases t)
  case (SInt w)
  have ir: "in_range (SInt W64) msk" using assms(1,4) SInt by simp
  have cc: "can_cast t (SInt W64)" using SInt by (cases w) simp_all
  show ?thesis by (rule result_type_exists [OF cc ir assms(1,2)])
next
  case (UInt w)
  show ?thesis
  proof (cases "0 \<le> msk")
    case True
    then have ir: "in_range (UInt W64) msk" using assms(2) by simp
    have cc: "can_cast t (UInt W64)" using UInt by (cases w) simp_all
    show ?thesis by (rule result_type_exists [OF cc ir assms(1,2)])
  next
    case False
    then have ir: "in_range (SInt W64) msk" using assms(1) by simp
    have cc: "can_cast t (SInt W64)" using UInt False assms(3) by (cases w) simp_all
    show ?thesis by (rule result_type_exists [OF cc ir assms(1,2)])
  qed
qed

lemma cast_mod:
  "cast t v = (case t of
       UInt w \<Rightarrow> v mod 2 ^ nbits w
     | SInt w \<Rightarrow> (v + 2 ^ (nbits w - 1)) mod 2 ^ nbits w - 2 ^ (nbits w - 1))"
proof (cases t)
  case (UInt w)
  then show ?thesis by (simp add: take_bit_eq_mod)
next
  case (SInt w)
  have "Suc (nbits w - 1) = nbits w" by (cases w) simp_all
  then have "signed_take_bit (nbits w - 1) v
      = take_bit (nbits w) (v + 2 ^ (nbits w - 1)) - 2 ^ (nbits w - 1)"
    using signed_take_bit_eq_take_bit_shift [of "nbits w - 1" v] by simp
  then show ?thesis using SInt by (simp add: take_bit_eq_mod)
qed

lemma bits_65520: "bit (65520::int) 4 \<and> (\<forall>i<4. \<not> bit (65520::int) i)"
proof -
  have "least_significant_bit 65520 = 4" by code_simp
  moreover obtain k where "least_significant_bit 65520 = int k" "bit (65520::int) k"
      "\<forall>i<k. \<not> bit (65520::int) i"
    using least_significant_bit_nonzero [of 65520] by auto
  ultimately show ?thesis by auto
qed

text \<open>
  Claim C3 as the specification states it fails: an unsigned 64-bit column is a column
  of integer elements and -16 is a mask that is not zero, and \<open>unpack\<close> raises
  \<^verbatim>\<open>TypeError\<close>, because \<^verbatim>\<open>&\<close> has no loop for an unsigned 64-bit array and a negative
  integer.
\<close>

theorem unpack_uint64_negative_mask_raises:
  "unpack [\<lparr>dtype_of = UInt W64, elems = [181]\<rparr>] 0 (- 16) uint8
     = ([\<lparr>dtype_of = UInt W64, elems = [181]\<rparr>], Inl TypeError)"
  by code_simp

text \<open>
  Claim C3, as it holds on the code. Take a mask of 64 bits (from \<open>- 2 ^ 63\<close>, below
  \<open>2 ^ 64\<close>) whose lowest set bit has index \<open>k\<close>, not negative when the source is an
  unsigned 64-bit column and below \<open>2 ^ 63\<close> when the source is a signed column, and any
  target element type. Then \<open>unpack\<close> returns a new array, at an address that the store
  did not have, of the target type, whose element \<open>i\<close> is \<open>(source[i] & mask) >> k\<close>
  reduced to the target type: modulo \<open>2 ^ n\<close> for an unsigned type of \<open>n\<close> bits, and
  into \<open>- 2 ^ (n - 1) .. 2 ^ (n - 1) - 1\<close> modulo \<open>2 ^ n\<close> for a signed one. Same length, same
  order. The store before the call is a prefix of the store after it, so the source
  column is not mutated. With the default target \<^verbatim>\<open>uint8\<close>, the container value
  \<open>0b10110101\<close> gives 5 under the mask \<open>0b00001111\<close> and 11 under \<open>0b11110000\<close>; the value
  8176 of a 16-bit column under the mask \<open>0xFFF0\<close> is \<open>511\<close> after the shift and becomes
  255.
\<close>

theorem unpack_extracts_sub_field:
  "(bit msk k \<and> (\<forall>i<k. \<not> bit msk i)
      \<and> - (2 ^ 63) \<le> msk \<and> msk < 2 ^ 64
      \<and> (dtype_of (h ! source_array) = UInt W64 \<longrightarrow> 0 \<le> msk)
      \<and> (\<forall>w. dtype_of (h ! source_array) = SInt w \<longrightarrow> msk < 2 ^ 63) \<longrightarrow>
    unpack h source_array msk target =
      (h @ [\<lparr>dtype_of = target,
             elems = map (\<lambda>x. case target of
                   UInt w \<Rightarrow> drop_bit k (x AND msk) mod 2 ^ nbits w
                 | SInt w \<Rightarrow> (drop_bit k (x AND msk) + 2 ^ (nbits w - 1)) mod 2 ^ nbits w
                       - 2 ^ (nbits w - 1))
               (elems (h ! source_array))\<rparr>],
       Inr (length h)))
   \<and> unpack [\<lparr>dtype_of = UInt W8, elems = [181]\<rparr>] 0 15 uint8 =
       ([\<lparr>dtype_of = UInt W8, elems = [181]\<rparr>, \<lparr>dtype_of = UInt W8, elems = [5]\<rparr>], Inr 1)
   \<and> unpack [\<lparr>dtype_of = UInt W8, elems = [181]\<rparr>] 0 240 uint8 =
       ([\<lparr>dtype_of = UInt W8, elems = [181]\<rparr>, \<lparr>dtype_of = UInt W8, elems = [11]\<rparr>], Inr 1)
   \<and> unpack [\<lparr>dtype_of = UInt W16, elems = [8176]\<rparr>] 0 65520 uint8 =
       ([\<lparr>dtype_of = UInt W16, elems = [8176]\<rparr>, \<lparr>dtype_of = UInt W8, elems = [255]\<rparr>], Inr 1)"
proof (intro conjI impI)
  assume a: "bit msk k \<and> (\<forall>i<k. \<not> bit msk i)
      \<and> - (2 ^ 63) \<le> msk \<and> msk < 2 ^ 64
      \<and> (dtype_of (h ! source_array) = UInt W64 \<longrightarrow> 0 \<le> msk)
      \<and> (\<forall>w. dtype_of (h ! source_array) = SInt w \<longrightarrow> msk < 2 ^ 63)"
  then have l: "least_significant_bit msk = int k" by (simp add: lowest_set_bit_unique)
  from a have nz: "msk \<noteq> 0" by auto
  from a obtain t where t: "result_type (dtype_of (h ! source_array)) msk = Inr t"
    using result_type_mask_64 [of msk "dtype_of (h ! source_array)"] by blast
  have "unpack h source_array msk target =
      (h @ [\<lparr>dtype_of = target,
             elems = map (\<lambda>x. cast target (drop_bit k (x AND msk))) (elems (h ! source_array))\<rparr>],
       Inr (length h))"
    using unpack_eq [OF nz t, of target] by (simp add: l)
  then show "unpack h source_array msk target =
      (h @ [\<lparr>dtype_of = target,
             elems = map (\<lambda>x. case target of
                   UInt w \<Rightarrow> drop_bit k (x AND msk) mod 2 ^ nbits w
                 | SInt w \<Rightarrow> (drop_bit k (x AND msk) + 2 ^ (nbits w - 1)) mod 2 ^ nbits w
                       - 2 ^ (nbits w - 1))
               (elems (h ! source_array))\<rparr>],
       Inr (length h))"
    by (simp only: cast_mod)
next
  show "unpack [\<lparr>dtype_of = UInt W8, elems = [181]\<rparr>] 0 15 uint8 =
       ([\<lparr>dtype_of = UInt W8, elems = [181]\<rparr>, \<lparr>dtype_of = UInt W8, elems = [5]\<rparr>], Inr 1)"
    by code_simp
next
  show "unpack [\<lparr>dtype_of = UInt W8, elems = [181]\<rparr>] 0 240 uint8 =
       ([\<lparr>dtype_of = UInt W8, elems = [181]\<rparr>, \<lparr>dtype_of = UInt W8, elems = [11]\<rparr>], Inr 1)"
    by code_simp
next
  show "unpack [\<lparr>dtype_of = UInt W16, elems = [8176]\<rparr>] 0 65520 uint8 =
       ([\<lparr>dtype_of = UInt W16, elems = [8176]\<rparr>, \<lparr>dtype_of = UInt W8, elems = [255]\<rparr>], Inr 1)"
    by code_simp
qed

theorem unpack_extracts_sub_field_witness:
  "bit (65520::int) 4
   \<and> unpack [\<lparr>dtype_of = UInt W16, elems = [8176, 181]\<rparr>] 0 65520 (UInt W8) =
       ([\<lparr>dtype_of = UInt W16, elems = [8176, 181]\<rparr>, \<lparr>dtype_of = UInt W8, elems = [255, 11]\<rparr>],
        Inr 1)
   \<and> unpack [\<lparr>dtype_of = UInt W16, elems = [8176, 181]\<rparr>] 0 65520 (SInt W8) =
       ([\<lparr>dtype_of = UInt W16, elems = [8176, 181]\<rparr>, \<lparr>dtype_of = SInt W8, elems = [- 1, 11]\<rparr>],
        Inr 1)"
proof -
  have e: "map (\<lambda>x. drop_bit 4 (x AND 65520) mod 2 ^ nbits W8) [8176, 181] = [255, 11::int]"
    by code_simp
  have e': "map (\<lambda>x. (drop_bit 4 (x AND 65520) + 2 ^ (nbits W8 - 1)) mod 2 ^ nbits W8
                - 2 ^ (nbits W8 - 1)) [8176, 181] = [- 1, 11::int]"
    by code_simp
  have u: "unpack [\<lparr>dtype_of = UInt W16, elems = [8176, 181]\<rparr>] 0 65520 (UInt W8) =
       ([\<lparr>dtype_of = UInt W16, elems = [8176, 181]\<rparr>, \<lparr>dtype_of = UInt W8, elems = [255, 11]\<rparr>],
        Inr 1)"
    using unpack_extracts_sub_field
      [of 65520 4 "[\<lparr>dtype_of = UInt W16, elems = [8176, 181]\<rparr>]" 0 "UInt W8"]
      bits_65520 e by simp
  have s: "unpack [\<lparr>dtype_of = UInt W16, elems = [8176, 181]\<rparr>] 0 65520 (SInt W8) =
       ([\<lparr>dtype_of = UInt W16, elems = [8176, 181]\<rparr>, \<lparr>dtype_of = SInt W8, elems = [- 1, 11]\<rparr>],
        Inr 1)"
    using unpack_extracts_sub_field
      [of 65520 4 "[\<lparr>dtype_of = UInt W16, elems = [8176, 181]\<rparr>]" 0 "SInt W8"]
      bits_65520 e' by simp
  show ?thesis using bits_65520 u s by simp
qed

text \<open>
  Claim C10. For a mask that is not zero and a sub-field array with elements, \<open>pack\<close>
  raises \<^verbatim>\<open>OverflowError\<close> exactly when the maximum of the whole sub-field array is greater
  than \<open>mask >> lsb\<close>, and the error then names that maximum and \<open>mask >> lsb\<close>, in
  both modes. For the sub-field values 16, 200, 3 under the mask 15 the error names 200,
  the largest, not 16, the first that is too large.
\<close>

theorem pack_overflow_reports_maximum:
  "(msk \<noteq> 0 \<and> elems (h ! sub) \<noteq> [] \<longrightarrow>
      ((\<exists>h' e. pack h a sub msk ip = (h', Inl (OverflowError e)))
         = (drop_bit (nat (least_significant_bit msk)) msk < Max (set (elems (h ! sub)))))
      \<and> (drop_bit (nat (least_significant_bit msk)) msk < Max (set (elems (h ! sub))) \<longrightarrow>
           pack h a sub msk ip =
             (h, Inl (OverflowError (Greater (Max (set (elems (h ! sub))))
                   (drop_bit (nat (least_significant_bit msk)) msk))))))
   \<and> pack [\<lparr>dtype_of = UInt W8, elems = [0, 0, 0]\<rparr>, \<lparr>dtype_of = UInt W8, elems = [16, 200, 3]\<rparr>]
        0 1 15 True =
       ([\<lparr>dtype_of = UInt W8, elems = [0, 0, 0]\<rparr>, \<lparr>dtype_of = UInt W8, elems = [16, 200, 3]\<rparr>],
        Inl (OverflowError (Greater 200 15)))"
proof (intro conjI impI)
  assume a: "msk \<noteq> 0 \<and> elems (h ! sub) \<noteq> []"
  show "(\<exists>h' e. pack h a sub msk ip = (h', Inl (OverflowError e)))
         = (drop_bit (nat (least_significant_bit msk)) msk < Max (set (elems (h ! sub))))"
  proof
    assume "\<exists>h' e. pack h a sub msk ip = (h', Inl (OverflowError e))"
    then show "drop_bit (nat (least_significant_bit msk)) msk < Max (set (elems (h ! sub)))"
      using a pack_no_overflow [of msk h sub a ip] by blast
  next
    assume "drop_bit (nat (least_significant_bit msk)) msk < Max (set (elems (h ! sub)))"
    then show "\<exists>h' e. pack h a sub msk ip = (h', Inl (OverflowError e))"
      using a pack_overflow [of msk h sub a ip] by blast
  qed
next
  assume "msk \<noteq> 0 \<and> elems (h ! sub) \<noteq> []"
    "drop_bit (nat (least_significant_bit msk)) msk < Max (set (elems (h ! sub)))"
  then show "pack h a sub msk ip =
             (h, Inl (OverflowError (Greater (Max (set (elems (h ! sub))))
                   (drop_bit (nat (least_significant_bit msk)) msk))))"
    by (simp add: pack_overflow)
next
  show "pack [\<lparr>dtype_of = UInt W8, elems = [0, 0, 0]\<rparr>, \<lparr>dtype_of = UInt W8, elems = [16, 200, 3]\<rparr>]
        0 1 15 True =
       ([\<lparr>dtype_of = UInt W8, elems = [0, 0, 0]\<rparr>, \<lparr>dtype_of = UInt W8, elems = [16, 200, 3]\<rparr>],
        Inl (OverflowError (Greater 200 15)))"
    by code_simp
qed

theorem pack_overflow_reports_maximum_witness:
  "(15::int) \<noteq> 0
   \<and> elems ([\<lparr>dtype_of = UInt W8, elems = [0, 0]\<rparr>, \<lparr>dtype_of = UInt W8, elems = [16, 200]\<rparr>] ! 1) \<noteq> []
   \<and> drop_bit (nat (least_significant_bit 15)) (15::int) = 15
   \<and> Max (set (elems ([\<lparr>dtype_of = UInt W8, elems = [0, 0]\<rparr>,
                         \<lparr>dtype_of = UInt W8, elems = [16, 200]\<rparr>] ! 1))) = 200
   \<and> pack [\<lparr>dtype_of = UInt W8, elems = [0, 0]\<rparr>, \<lparr>dtype_of = UInt W8, elems = [16, 200]\<rparr>]
        0 1 15 False =
       ([\<lparr>dtype_of = UInt W8, elems = [0, 0]\<rparr>, \<lparr>dtype_of = UInt W8, elems = [16, 200]\<rparr>],
        Inl (OverflowError (Greater 200 15)))"
proof -
  have l: "least_significant_bit 15 = 0" by code_simp
  show ?thesis
    using pack_overflow_reports_maximum
      [of 15 "[\<lparr>dtype_of = UInt W8, elems = [0, 0]\<rparr>, \<lparr>dtype_of = UInt W8, elems = [16, 200]\<rparr>]"
          1 0 False]
    by (simp add: l)
qed

lemma Max_exceeds:
  assumes "\<exists>v\<in>set xs. (m::int) < v"
  shows "xs \<noteq> [] \<and> Max (set xs) \<in> set xs \<and> m < Max (set xs)"
proof -
  from assms obtain v where v: "v \<in> set xs" "m < v" by blast
  then have ne: "xs \<noteq> []" by auto
  then have "Max (set xs) \<in> set xs" by (simp add: Max_in)
  moreover have "v \<le> Max (set xs)" using v(1) by simp
  ultimately show ?thesis using ne v(2) by simp
qed

text \<open>
  Claim C1. For a mask that is not zero, if an element of the sub-field array is greater
  than \<open>mask >> lsb\<close>, \<open>pack\<close> raises \<^verbatim>\<open>OverflowError\<close> with an element of the array that
  is too large and \<open>mask >> lsb\<close>, and the store it leaves is the store it was given:
  nothing is written, with \<^verbatim>\<open>inplace\<close> or without. Packing the value 16 under the mask
  \<open>0b00001111\<close> reports 16 and 15 and leaves the destination as it was.
\<close>

theorem pack_range_violation_no_mutation:
  "(msk \<noteq> 0 \<and> (\<exists>v\<in>set (elems (h ! sub)). drop_bit (nat (least_significant_bit msk)) msk < v) \<longrightarrow>
      (\<exists>v\<in>set (elems (h ! sub)).
          drop_bit (nat (least_significant_bit msk)) msk < v
          \<and> pack h a sub msk ip =
              (h, Inl (OverflowError (Greater v (drop_bit (nat (least_significant_bit msk)) msk))))))
   \<and> pack [\<lparr>dtype_of = UInt W8, elems = [181]\<rparr>, \<lparr>dtype_of = UInt W8, elems = [16]\<rparr>] 0 1 15 True =
       ([\<lparr>dtype_of = UInt W8, elems = [181]\<rparr>, \<lparr>dtype_of = UInt W8, elems = [16]\<rparr>],
        Inl (OverflowError (Greater 16 15)))
   \<and> pack [\<lparr>dtype_of = UInt W8, elems = [181]\<rparr>, \<lparr>dtype_of = UInt W8, elems = [16]\<rparr>] 0 1 15 False =
       ([\<lparr>dtype_of = UInt W8, elems = [181]\<rparr>, \<lparr>dtype_of = UInt W8, elems = [16]\<rparr>],
        Inl (OverflowError (Greater 16 15)))"
proof (intro conjI impI)
  assume a: "msk \<noteq> 0
    \<and> (\<exists>v\<in>set (elems (h ! sub)). drop_bit (nat (least_significant_bit msk)) msk < v)"
  then have m: "elems (h ! sub) \<noteq> []" "Max (set (elems (h ! sub))) \<in> set (elems (h ! sub))"
      "drop_bit (nat (least_significant_bit msk)) msk < Max (set (elems (h ! sub)))"
    using Max_exceeds [of "elems (h ! sub)" "drop_bit (nat (least_significant_bit msk)) msk"]
    by auto
  have "pack h a sub msk ip =
      (h, Inl (OverflowError (Greater (Max (set (elems (h ! sub))))
         (drop_bit (nat (least_significant_bit msk)) msk))))"
    using a m(1,3) by (simp add: pack_overflow)
  with m(2,3) show "\<exists>v\<in>set (elems (h ! sub)).
          drop_bit (nat (least_significant_bit msk)) msk < v
          \<and> pack h a sub msk ip =
              (h, Inl (OverflowError (Greater v (drop_bit (nat (least_significant_bit msk)) msk))))"
    by blast
next
  show "pack [\<lparr>dtype_of = UInt W8, elems = [181]\<rparr>, \<lparr>dtype_of = UInt W8, elems = [16]\<rparr>] 0 1 15 True =
       ([\<lparr>dtype_of = UInt W8, elems = [181]\<rparr>, \<lparr>dtype_of = UInt W8, elems = [16]\<rparr>],
        Inl (OverflowError (Greater 16 15)))"
    by code_simp
next
  show "pack [\<lparr>dtype_of = UInt W8, elems = [181]\<rparr>, \<lparr>dtype_of = UInt W8, elems = [16]\<rparr>] 0 1 15 False =
       ([\<lparr>dtype_of = UInt W8, elems = [181]\<rparr>, \<lparr>dtype_of = UInt W8, elems = [16]\<rparr>],
        Inl (OverflowError (Greater 16 15)))"
    by code_simp
qed

theorem pack_range_violation_no_mutation_witness:
  "(240::int) \<noteq> 0
   \<and> drop_bit (nat (least_significant_bit 240)) (240::int) = 15
   \<and> (15::int) < 16
   \<and> pack [\<lparr>dtype_of = UInt W8, elems = [181, 7]\<rparr>, \<lparr>dtype_of = UInt W8, elems = [2, 16]\<rparr>] 0 1 240 True =
       ([\<lparr>dtype_of = UInt W8, elems = [181, 7]\<rparr>, \<lparr>dtype_of = UInt W8, elems = [2, 16]\<rparr>],
        Inl (OverflowError (Greater 16 15)))"
proof -
  have l: "least_significant_bit 240 = 4" by code_simp
  have d: "drop_bit 4 (240::int) = 15" by code_simp
  show ?thesis
    using pack_range_violation_no_mutation
      [of 240 "[\<lparr>dtype_of = UInt W8, elems = [181, 7]\<rparr>, \<lparr>dtype_of = UInt W8, elems = [2, 16]\<rparr>]"
          1 0 True]
    by (auto simp: l d)
qed

subsection \<open>pack: what a successful call writes\<close>

lemma bit_cast: "i < bits t \<Longrightarrow> bit (cast t v) i = bit v i"
proof (cases t)
  case (UInt w)
  moreover assume "i < bits t"
  ultimately show ?thesis by (simp add: bit_take_bit_iff)
next
  case (SInt w)
  moreover assume "i < bits t"
  ultimately have "min (nbits w - 1) i = i" by simp
  then show ?thesis using SInt by (simp add: bit_signed_take_bit_iff)
qed

lemma broadcast2_nth:
  assumes "broadcast2 f xs ys = Inr vs" "ys \<noteq> []" "k < length xs"
  shows "\<exists>y\<in>set ys. vs ! k = f (xs ! k) y"
proof -
  consider (eq) "length xs = length ys"
    | (one_r) "length xs \<noteq> length ys" "length ys = 1"
    | (one_l) "length xs \<noteq> length ys" "length ys \<noteq> 1" "length xs = 1"
    using assms(1) by (auto simp: broadcast2_def split: if_splits)
  then show ?thesis
  proof cases
    case eq
    then have "vs = map2 f xs ys" using assms(1) by (simp add: broadcast2_def)
    then have "vs ! k = f (xs ! k) (ys ! k)" using eq assms(3) by simp
    moreover have "ys ! k \<in> set ys" using eq assms(3) by simp
    ultimately show ?thesis by blast
  next
    case one_r
    then have "vs = map (\<lambda>x. f x (hd ys)) xs" using assms(1) by (simp add: broadcast2_def)
    then have "vs ! k = f (xs ! k) (hd ys)" using assms(3) by simp
    moreover have "hd ys \<in> set ys" using assms(2) by simp
    ultimately show ?thesis by blast
  next
    case one_l
    then have "vs = map (\<lambda>y. f (hd xs) y) ys" using assms(1) by (simp add: broadcast2_def)
    moreover have "k = 0" using one_l(3) assms(3) by simp
    moreover have "hd xs = xs ! 0" using one_l(3) by (cases xs) simp_all
    ultimately have "vs ! k = f (xs ! k) (ys ! 0)" using assms(2) by (simp add: nth_map)
    moreover have "ys ! 0 \<in> set ys" using assms(2) by simp
    ultimately show ?thesis by blast
  qed
qed

lemma broadcast2_length:
  assumes "broadcast2 f xs ys = Inr vs"
  shows "length vs = length xs \<or> (length xs = 1 \<and> length ys \<noteq> 1 \<and> length vs = length ys)"
  using assms by (auto simp: broadcast2_def split: if_splits)

lemma packed_bits_elems:
  assumes "packed_bits b l msk t = Inr p"
  shows "dtype_of p = t \<and> length (elems p) = length (elems b)
    \<and> (\<forall>y\<in>set (elems p). \<exists>q. y = cast t (q AND msk))"
  using assms
  by (auto simp: packed_bits_def np_left_shift_def np_and_def astype_def split: sum.splits)

lemma promote_types_same: "promote_types t t = Some t"
  by (cases t) (simp_all add: wider_def)

lemma twice_bits: "twice a = Some z \<Longrightarrow> nbits z = 2 * nbits a"
  by (cases a) auto

lemma promote_types_bits: "promote_types t m = Some t' \<Longrightarrow> bits t \<le> bits t'"
  by (cases t; cases m) (auto simp: wider_def split: if_splits dest: twice_bits)

lemma result_type_bits: "result_type t s = Inr t' \<Longrightarrow> bits t \<le> bits t'"
  using result_type_Inr [of t s t'] by (simp add: can_cast_bits)

lemma pack_inplace_steps:
  assumes "pack h a s msk True = (h', Inr r)"
  obtains mx m t1 h1 sp t2 where
    "py_rshift msk (least_significant_bit msk) = Inr mx"
    "np_max (h ! s) = Inr m" "\<not> mx < m"
    "np_and (h ! a) (NOT msk) = Inr t1"
    "assign_slice h a t1 = (h1, Inr ())"
    "packed_bits (h1 ! s) (least_significant_bit msk) msk (dtype_of (h1 ! a)) = Inr sp"
    "np_or (h1 ! a) sp = Inr t2"
    "assign_slice h1 a t2 = (h', Inr ())"
    "r = None"
  using assms
  by (auto simp: pack_def Let_def split: sum.splits prod.splits if_splits)

lemma pack_copy_steps:
  assumes "pack h a s msk False = (h', Inr r)"
  obtains mx m t1 sp res where
    "py_rshift msk (least_significant_bit msk) = Inr mx"
    "np_max (h ! s) = Inr m" "\<not> mx < m"
    "np_and (h ! a) (NOT msk) = Inr t1"
    "packed_bits (h ! s) (least_significant_bit msk) msk (dtype_of t1) = Inr sp"
    "np_or t1 sp = Inr res"
    "h' = h @ [res]"
    "r = Some (length h)"
  using assms
  by (auto simp: pack_def Let_def alloc_def split: sum.splits prod.splits if_splits)

lemma np_max_Inr_nonempty: "np_max a = Inr m \<Longrightarrow> elems a \<noteq> []"
  by (auto simp: np_max_def split: list.splits)

lemma np_and_Inr:
  "np_and a s = Inr t1 \<Longrightarrow>
     result_type (dtype_of a) s = Inr (dtype_of t1) \<and> elems t1 = map (\<lambda>x. x AND s) (elems a)"
  by (auto simp: np_and_def split: sum.splits)

lemma np_or_Inr:
  "np_or a b = Inr c \<Longrightarrow>
     promote_types (dtype_of a) (dtype_of b) = Some (dtype_of c)
     \<and> broadcast2 (OR) (elems a) (elems b) = Inr (elems c)"
  by (auto simp: np_or_def split: option.splits sum.splits)

lemma assign_slice_same_length:
  assumes "length (elems v) = length (elems (h ! a))"
  shows "assign_slice h a v = (h[a := astype v (dtype_of (h ! a))], Inr ())"
  using assms by (simp add: assign_slice_def Let_def)

lemma assign_slice_Inr:
  assumes "assign_slice h a v = (h', Inr u)" "length (elems v) \<noteq> 1 \<or> length (elems (h ! a)) = 1"
  shows "h' = h[a := astype v (dtype_of (h ! a))] \<and> length (elems v) = length (elems (h ! a))"
  using assms by (auto simp: assign_slice_def Let_def split: if_splits)

lemma frame_bits:
  "i < bits t \<Longrightarrow> \<not> bit msk i \<Longrightarrow>
     bit (cast t (cast t (x AND NOT msk) OR cast t (q AND msk))) i = bit x i"
  by (simp add: bit_cast bit_or_iff bit_and_iff bit_not_iff)

lemma frame_bits_copy:
  "i < bits t \<Longrightarrow> \<not> bit msk i \<Longrightarrow>
     bit ((x AND NOT msk) OR cast t (q AND msk)) i = bit x i"
  by (simp add: bit_cast bit_or_iff bit_and_iff bit_not_iff)

lemma pack_inplace_success:
  assumes p: "pack h a s msk True = (h', Inr r)" and a: "a < length h"
  shows "r = None \<and> length h' = length h \<and> (\<forall>b. b \<noteq> a \<longrightarrow> h' ! b = h ! b)
    \<and> dtype_of (h' ! a) = dtype_of (h ! a)
    \<and> length (elems (h' ! a)) = length (elems (h ! a))
    \<and> (\<forall>k<length (elems (h ! a)). \<exists>q. elems (h' ! a) ! k =
          cast (dtype_of (h ! a))
            (cast (dtype_of (h ! a)) (elems (h ! a) ! k AND NOT msk)
               OR cast (dtype_of (h ! a)) (q AND msk)))"
proof -
  define dt where "dt = dtype_of (h ! a)"
  define xs where "xs = elems (h ! a)"
  from p obtain mx m t1 h1 sp t2 where st:
    "np_max (h ! s) = Inr m"
    "np_and (h ! a) (NOT msk) = Inr t1"
    "assign_slice h a t1 = (h1, Inr ())"
    "packed_bits (h1 ! s) (least_significant_bit msk) msk (dtype_of (h1 ! a)) = Inr sp"
    "np_or (h1 ! a) sp = Inr t2"
    "assign_slice h1 a t2 = (h', Inr ())"
    "r = None"
    by (rule pack_inplace_steps)
  have t1: "elems t1 = map (\<lambda>x. x AND NOT msk) xs"
    using np_and_Inr [OF st(2)] by (simp add: xs_def)
  then have "length (elems t1) = length (elems (h ! a))" by (simp add: xs_def)
  then have h1: "h1 = h[a := astype t1 dt]"
    using st(3) assign_slice_same_length [of t1 h a] by (simp add: dt_def)
  have h1a: "h1 ! a = astype t1 dt" using a by (simp add: h1)
  then have h1a_dt: "dtype_of (h1 ! a) = dt"
    and h1a_el: "elems (h1 ! a) = map (\<lambda>x. cast dt (x AND NOT msk)) xs"
    by (simp_all add: astype_def t1 o_def)
  have len_s: "length (elems (h1 ! s)) = length (elems (h ! s))"
  proof (cases "s = a")
    case True
    then show ?thesis using h1a_el by (simp add: xs_def)
  next
    case False
    then show ?thesis by (simp add: h1)
  qed
  have sp: "dtype_of sp = dt" "length (elems sp) = length (elems (h1 ! s))"
    "\<forall>y\<in>set (elems sp). \<exists>q. y = cast dt (q AND msk)"
    using packed_bits_elems [OF st(4)] by (simp_all add: h1a_dt)
  have sp_ne: "elems sp \<noteq> []"
    using np_max_Inr_nonempty [OF st(1)] sp(2) len_s by auto
  have bc: "broadcast2 (OR) (elems (h1 ! a)) (elems sp) = Inr (elems t2)"
    using np_or_Inr [OF st(5)] by simp
  have len_t2: "length (elems t2) = length xs"
    using broadcast2_length [OF bc] st(6)
    by (auto simp: h1a_el assign_slice_def Let_def split: if_splits)
  then have h': "h' = h1[a := astype t2 dt]"
    using st(6) assign_slice_same_length [of t2 h1 a] by (simp add: h1a_dt h1a_el)
  have h'a: "h' ! a = astype t2 dt" using a by (simp add: h' h1)
  have el: "\<exists>q. elems (h' ! a) ! k = cast dt (cast dt (xs ! k AND NOT msk) OR cast dt (q AND msk))"
    if k: "k < length xs" for k
  proof -
    have "k < length (elems (h1 ! a))" using k by (simp add: h1a_el)
    then obtain y where y: "y \<in> set (elems sp)" "elems t2 ! k = (elems (h1 ! a) ! k) OR y"
      using broadcast2_nth [OF bc sp_ne] by blast
    then obtain q where q: "y = cast dt (q AND msk)" using sp(3) by blast
    have "elems (h' ! a) ! k = cast dt (elems t2 ! k)"
      using k len_t2 by (simp add: h'a astype_def)
    then show ?thesis using y(2) q k by (auto simp: h1a_el)
  qed
  have "length h' = length h" by (simp add: h' h1)
  moreover have "\<forall>b. b \<noteq> a \<longrightarrow> h' ! b = h ! b" by (simp add: h' h1)
  moreover have "dtype_of (h' ! a) = dtype_of (h ! a)" by (simp add: h'a astype_def dt_def)
  moreover have "length (elems (h' ! a)) = length (elems (h ! a))"
    by (simp add: h'a astype_def len_t2 xs_def)
  ultimately show ?thesis using st(7) el by (simp add: dt_def xs_def)
qed

lemma pack_copy_success:
  assumes p: "pack h a s msk False = (h', Inr r)"
  shows "\<exists>res. h' = h @ [res] \<and> r = Some (length h)
    \<and> bits (dtype_of (h ! a)) \<le> bits (dtype_of res)
    \<and> (\<forall>k<length (elems (h ! a)). \<exists>q. elems res ! k =
          (elems (h ! a) ! k AND NOT msk) OR cast (dtype_of res) (q AND msk))"
proof -
  from p obtain mx m t1 sp res where st:
    "np_max (h ! s) = Inr m"
    "np_and (h ! a) (NOT msk) = Inr t1"
    "packed_bits (h ! s) (least_significant_bit msk) msk (dtype_of t1) = Inr sp"
    "np_or t1 sp = Inr res"
    "h' = h @ [res]"
    "r = Some (length h)"
    by (rule pack_copy_steps)
  have t1: "elems t1 = map (\<lambda>x. x AND NOT msk) (elems (h ! a))"
    "result_type (dtype_of (h ! a)) (NOT msk) = Inr (dtype_of t1)"
    using np_and_Inr [OF st(2)] by simp_all
  have sp: "dtype_of sp = dtype_of t1" "length (elems sp) = length (elems (h ! s))"
    "\<forall>y\<in>set (elems sp). \<exists>q. y = cast (dtype_of t1) (q AND msk)"
    using packed_bits_elems [OF st(3)] by simp_all
  have sp_ne: "elems sp \<noteq> []"
    using np_max_Inr_nonempty [OF st(1)] sp(2) by auto
  have bc: "broadcast2 (OR) (elems t1) (elems sp) = Inr (elems res)"
    and "promote_types (dtype_of t1) (dtype_of sp) = Some (dtype_of res)"
    using np_or_Inr [OF st(4)] by simp_all
  then have dres: "dtype_of res = dtype_of t1" by (simp add: sp(1) promote_types_same)
  have el: "\<exists>q. elems res ! k = (elems (h ! a) ! k AND NOT msk) OR cast (dtype_of res) (q AND msk)"
    if k: "k < length (elems (h ! a))" for k
  proof -
    have "k < length (elems t1)" using k by (simp add: t1)
    then obtain y where y: "y \<in> set (elems sp)" "elems res ! k = (elems t1 ! k) OR y"
      using broadcast2_nth [OF bc sp_ne] by blast
    then obtain q where q: "y = cast (dtype_of t1) (q AND msk)" using sp(3) by blast
    show ?thesis using y(2) q k by (auto simp: t1 dres)
  qed
  have "bits (dtype_of (h ! a)) \<le> bits (dtype_of res)"
    using result_type_bits [OF t1(2)] by (simp add: dres)
  then show ?thesis using st(5,6) el by blast
qed

text \<open>
  Claim C4. After a successful call of \<open>pack\<close> with \<^verbatim>\<open>inplace\<close>, the destination has its
  element type and its length, and in each of its elements every bit of the element
  (below the width of the element type) that is not in the mask is as it was before the
  call. After a successful call without \<^verbatim>\<open>inplace\<close> the destination itself is as it was,
  and the same holds of the bits of the elements of the new array that the call returns.
\<close>

theorem pack_preserves_unmasked_bits:
  "(pack h a s msk True = (h', Inr r) \<and> a < length h \<longrightarrow>
      dtype_of (h' ! a) = dtype_of (h ! a)
      \<and> length (elems (h' ! a)) = length (elems (h ! a))
      \<and> (\<forall>k<length (elems (h ! a)). \<forall>i<bits (dtype_of (h ! a)).
            \<not> bit msk i \<longrightarrow> bit (elems (h' ! a) ! k) i = bit (elems (h ! a) ! k) i))
   \<and> (pack h a s msk False = (h', Inr r) \<and> a < length h \<longrightarrow>
      r = Some (length h) \<and> h' ! a = h ! a
      \<and> (\<forall>k<length (elems (h ! a)). \<forall>i<bits (dtype_of (h ! a)).
            \<not> bit msk i \<longrightarrow> bit (elems (h' ! length h) ! k) i = bit (elems (h ! a) ! k) i))"
proof (intro conjI impI)
  assume p: "pack h a s msk True = (h', Inr r) \<and> a < length h"
  note s = pack_inplace_success [of h a s msk h' r]
  show "dtype_of (h' ! a) = dtype_of (h ! a)" using p s by blast
  show "length (elems (h' ! a)) = length (elems (h ! a))" using p s by blast
  show "\<forall>k<length (elems (h ! a)). \<forall>i<bits (dtype_of (h ! a)).
      \<not> bit msk i \<longrightarrow> bit (elems (h' ! a) ! k) i = bit (elems (h ! a) ! k) i"
  proof (intro allI impI)
    fix k i
    assume k: "k < length (elems (h ! a))" and i: "i < bits (dtype_of (h ! a))" "\<not> bit msk i"
    from p s k obtain q where "elems (h' ! a) ! k =
        cast (dtype_of (h ! a))
          (cast (dtype_of (h ! a)) (elems (h ! a) ! k AND NOT msk)
             OR cast (dtype_of (h ! a)) (q AND msk))"
      by blast
    then show "bit (elems (h' ! a) ! k) i = bit (elems (h ! a) ! k) i"
      using frame_bits [OF i] by simp
  qed
next
  assume p: "pack h a s msk False = (h', Inr r) \<and> a < length h"
  then obtain res where res: "h' = h @ [res]" "r = Some (length h)"
    "bits (dtype_of (h ! a)) \<le> bits (dtype_of res)"
    "\<forall>k<length (elems (h ! a)). \<exists>q. elems res ! k =
          (elems (h ! a) ! k AND NOT msk) OR cast (dtype_of res) (q AND msk)"
    using pack_copy_success [of h a s msk h' r] by blast
  show "r = Some (length h)" by (rule res(2))
  show "h' ! a = h ! a" using p by (simp add: res(1) nth_append)
  show "\<forall>k<length (elems (h ! a)). \<forall>i<bits (dtype_of (h ! a)).
      \<not> bit msk i \<longrightarrow> bit (elems (h' ! length h) ! k) i = bit (elems (h ! a) ! k) i"
  proof (intro allI impI)
    fix k i
    assume k: "k < length (elems (h ! a))" and i: "i < bits (dtype_of (h ! a))" "\<not> bit msk i"
    from res(4) k obtain q where "elems res ! k =
        (elems (h ! a) ! k AND NOT msk) OR cast (dtype_of res) (q AND msk)"
      by blast
    moreover have "i < bits (dtype_of res)" using i(1) res(3) by simp
    ultimately have "bit (elems res ! k) i = bit (elems (h ! a) ! k) i"
      using frame_bits_copy [OF _ i(2)] by simp
    then show "bit (elems (h' ! length h) ! k) i = bit (elems (h ! a) ! k) i"
      by (simp add: res(1))
  qed
qed

theorem pack_preserves_unmasked_bits_witness:
  "pack [\<lparr>dtype_of = UInt W8, elems = [181]\<rparr>, \<lparr>dtype_of = UInt W8, elems = [3]\<rparr>] 0 1 15 True =
     ([\<lparr>dtype_of = UInt W8, elems = [179]\<rparr>, \<lparr>dtype_of = UInt W8, elems = [3]\<rparr>], Inr None)
   \<and> pack [\<lparr>dtype_of = UInt W8, elems = [181]\<rparr>, \<lparr>dtype_of = UInt W8, elems = [3]\<rparr>] 0 1 15 False =
     ([\<lparr>dtype_of = UInt W8, elems = [181]\<rparr>, \<lparr>dtype_of = UInt W8, elems = [3]\<rparr>,
       \<lparr>dtype_of = SInt W16, elems = [179]\<rparr>], Inr (Some 2))
   \<and> \<not> bit (15::int) 7
   \<and> bit (179::int) 7 = bit (181::int) 7"
proof -
  let ?h = "[\<lparr>dtype_of = UInt W8, elems = [181]\<rparr>, \<lparr>dtype_of = UInt W8, elems = [3]\<rparr>]"
  have e1: "pack ?h 0 1 15 True =
     ([\<lparr>dtype_of = UInt W8, elems = [179]\<rparr>, \<lparr>dtype_of = UInt W8, elems = [3]\<rparr>], Inr None)"
    by code_simp
  have e2: "pack ?h 0 1 15 False =
     ([\<lparr>dtype_of = UInt W8, elems = [181]\<rparr>, \<lparr>dtype_of = UInt W8, elems = [3]\<rparr>,
       \<lparr>dtype_of = SInt W16, elems = [179]\<rparr>], Inr (Some 2))"
    by code_simp
  have b: "\<not> bit (15::int) 7" by simp
  have "\<forall>k<length (elems (?h ! 0)). \<forall>i<bits (dtype_of (?h ! 0)).
      \<not> bit (15::int) i \<longrightarrow>
        bit (elems ([\<lparr>dtype_of = UInt W8, elems = [179]\<rparr>, \<lparr>dtype_of = UInt W8, elems = [3]\<rparr>] ! 0) ! k) i
          = bit (elems (?h ! 0) ! k) i"
    using pack_preserves_unmasked_bits
      [of ?h 0 1 15 "[\<lparr>dtype_of = UInt W8, elems = [179]\<rparr>, \<lparr>dtype_of = UInt W8, elems = [3]\<rparr>]" None]
      e1 by simp
  then have "bit (179::int) 7 = bit (181::int) 7" using b by simp
  then show ?thesis using e1 e2 b by simp
qed

subsection \<open>The point record functions write into new arrays only\<close>

lemma assign_slice_prefix:
  assumes "assign_slice h a v = (h', r)" "n \<le> a"
  shows "take n h' = take n h \<and> length h' = length h"
  using assms by (auto simp: assign_slice_def Let_def split: if_splits)

lemma unpack_prefix:
  assumes "unpack h src msk t = (h', r)" "n \<le> length h"
  shows "take n h' = take n h \<and> length h \<le> length h'"
  using assms by (auto simp: unpack_def Let_def alloc_def split: sum.splits)

lemma pack_prefix:
  assumes "pack h a s msk ip = (h', r)" "n \<le> a" "n \<le> length h"
  shows "take n h' = take n h \<and> length h \<le> length h'"
proof (cases ip)
  case True
  have *: "take n h2 = take n h \<and> length h \<le> length h2"
    if "assign_slice h a t1 = (h1, r1)" "assign_slice h1 a t2 = (h2, r2)" for t1 h1 r1 t2 h2 r2
    using assign_slice_prefix [OF that(1) assms(2)] assign_slice_prefix [OF that(2) assms(2)]
    by simp
  have **: "take n h1 = take n h \<and> length h \<le> length h1"
    if "assign_slice h a t1 = (h1, r1)" for t1 h1 r1
    using assign_slice_prefix [OF that(1) assms(2)] by simp
  show ?thesis
    using assms(1) True * **
    by (auto simp: pack_def Let_def split: sum.splits prod.splits if_splits)
next
  case False
  then show ?thesis
    using assms(1,3)
    by (auto simp: pack_def Let_def alloc_def split: sum.splits prod.splits if_splits)
qed

lemma getitem_Inr: "getitem a name = Inr c \<Longrightarrow> (name, c) \<in> set (columns a)"
  by (auto simp: getitem_def split: option.splits dest: map_of_SomeD)

lemma setitem_prefix:
  assumes "setitem h a name v = (h', r)" "\<forall>c\<in>snd ` set (columns a). n \<le> c"
  shows "take n h' = take n h \<and> length h' = length h"
proof (cases "getitem a name")
  case (Inl e)
  then show ?thesis using assms(1) by (simp add: setitem_def)
next
  case (Inr c)
  then have "n \<le> c" using assms(2) getitem_Inr by force
  moreover have "assign_slice h c (h ! v) = (h', r)" using assms(1) Inr by (simp add: setitem_def)
  ultimately show ?thesis using assign_slice_prefix by blast
qed

lemma unpack_composed_dim_prefix:
  assumes "unpack_composed_dim h data dim_name sfs pr = (h', r)"
    "\<forall>c\<in>snd ` set (columns pr). n \<le> c" "n \<le> length h"
  shows "take n h' = take n h \<and> length h \<le> length h'"
  using assms
proof (induction sfs arbitrary: h)
  case Nil
  then show ?case by simp
next
  case (Cons sf sfs)
  show ?case
  proof (cases "getitem data dim_name")
    case (Inl e)
    then show ?thesis using Cons.prems(1) by simp
  next
    case (Inr src)
    obtain h1 r1 where u: "unpack h src (sf_mask sf) uint8 = (h1, r1)" by force
    have p1: "take n h1 = take n h \<and> length h \<le> length h1"
      using unpack_prefix [OF u Cons.prems(3)] .
    show ?thesis
    proof (cases r1)
      case (Inl e)
      then show ?thesis using Cons.prems(1) Inr u p1 by simp
    next
      case (Inr v)
      obtain h2 r2 where s: "setitem h1 pr (sf_name sf) v = (h2, r2)" by force
      have p2: "take n h2 = take n h1 \<and> length h2 = length h1"
        using setitem_prefix [OF s Cons.prems(2)] .
      show ?thesis
      proof (cases r2)
        case (Inl e)
        then show ?thesis using Cons.prems(1) \<open>getitem data dim_name = Inr src\<close> u Inr s p1 p2
          by simp
      next
        case (Inr x)
        then have "unpack_composed_dim h2 data dim_name sfs pr = (h', r)"
          using Cons.prems(1) \<open>getitem data dim_name = Inr src\<close> u \<open>r1 = Inr v\<close> s by simp
        moreover have "n \<le> length h2" using p1 p2 Cons.prems(3) by simp
        ultimately have "take n h' = take n h2 \<and> length h2 \<le> length h'"
          using Cons.IH Cons.prems(2) by blast
        then show ?thesis using p1 p2 by simp
      qed
    qed
  qed
qed

lemma unpack_dims_prefix:
  assumes "unpack_dims h data cd ns pr = (h', r)"
    "\<forall>c\<in>snd ` set (columns pr). n \<le> c" "n \<le> length h"
  shows "take n h' = take n h \<and> length h \<le> length h'"
  using assms
proof (induction ns arbitrary: h)
  case Nil
  then show ?case by simp
next
  case (Cons d ns)
  obtain h1 r1 where step: "(case map_of cd d of
        Some sfs \<Rightarrow> unpack_composed_dim h data d sfs pr
      | None \<Rightarrow> (case getitem data d of Inl e \<Rightarrow> (h, Inl e)
                  | Inr src \<Rightarrow> setitem h pr d src)) = (h1, r1)"
    by force
  have p1: "take n h1 = take n h \<and> length h \<le> length h1"
  proof (cases "map_of cd d")
    case None
    show ?thesis
    proof (cases "getitem data d")
      case (Inl e)
      then show ?thesis using step None by simp
    next
      case (Inr src)
      then have "setitem h pr d src = (h1, r1)" using step None by simp
      then show ?thesis using setitem_prefix Cons.prems(2) by fastforce
    qed
  next
    case (Some sfs)
    then have "unpack_composed_dim h data d sfs pr = (h1, r1)" using step by simp
    then show ?thesis using unpack_composed_dim_prefix Cons.prems(2,3) by blast
  qed
  show ?case
  proof (cases r1)
    case (Inl e)
    then have "(h', r) = (h1, Inl e)"
      using Cons.prems(1) step by (auto split: option.splits sum.splits prod.splits)
    then show ?thesis using p1 by simp
  next
    case (Inr x)
    then have "unpack_dims h1 data cd ns pr = (h', r)"
      using Cons.prems(1) step by (auto split: option.splits sum.splits prod.splits)
    moreover have "n \<le> length h1" using p1 Cons.prems(3) by simp
    ultimately have "take n h' = take n h1 \<and> length h1 \<le> length h'"
      using Cons.IH Cons.prems(2) by blast
    then show ?thesis using p1 by simp
  qed
qed

lemma repack_composed_dim_prefix:
  assumes "repack_composed_dim h d sfs ra sa = (h', r)"
    "\<forall>c\<in>snd ` set (columns ra). n \<le> c" "n \<le> length h"
  shows "take n h' = take n h \<and> length h \<le> length h'"
  using assms
proof (induction sfs arbitrary: h)
  case Nil
  then show ?case by simp
next
  case (Cons sf sfs)
  show ?case
  proof (cases "getitem ra d")
    case (Inl e)
    then show ?thesis using Cons.prems(1) by simp
  next
    case dst: (Inr dst)
    then have n_dst: "n \<le> dst" using Cons.prems(2) getitem_Inr by force
    show ?thesis
    proof (cases "getitem sa (sf_name sf)")
      case (Inl e)
      then show ?thesis using Cons.prems(1) dst by simp
    next
      case src: (Inr src)
      obtain h1 r1 where pk: "pack h dst src (sf_mask sf) True = (h1, r1)" by force
      have p1: "take n h1 = take n h \<and> length h \<le> length h1"
        using pack_prefix [OF pk n_dst Cons.prems(3)] .
      show ?thesis
      proof (cases r1)
        case (Inl e)
        then have "h' = h1"
          using Cons.prems(1) dst src pk by (cases e) auto
        then show ?thesis using p1 by simp
      next
        case (Inr x)
        then have "repack_composed_dim h1 d sfs ra sa = (h', r)"
          using Cons.prems(1) dst src pk by simp
        moreover have "n \<le> length h1" using p1 Cons.prems(3) by simp
        ultimately have "take n h' = take n h1 \<and> length h1 \<le> length h'"
          using Cons.IH Cons.prems(2) by blast
        then show ?thesis using p1 by simp
      qed
    qed
  qed
qed

lemma repack_dims_prefix:
  assumes "repack_dims h sa cd ns ra = (h', r)"
    "\<forall>c\<in>snd ` set (columns ra). n \<le> c" "n \<le> length h"
  shows "take n h' = take n h \<and> length h \<le> length h'"
  using assms
proof (induction ns arbitrary: h)
  case Nil
  then show ?case by simp
next
  case (Cons d ns)
  obtain h1 r1 where step: "(case map_of cd d of
        Some sfs \<Rightarrow> repack_composed_dim h d sfs ra sa
      | None \<Rightarrow> (case getitem sa d of Inl e \<Rightarrow> (h, Inl e)
                  | Inr src \<Rightarrow> setitem h ra d src)) = (h1, r1)"
    by force
  have p1: "take n h1 = take n h \<and> length h \<le> length h1"
  proof (cases "map_of cd d")
    case None
    show ?thesis
    proof (cases "getitem sa d")
      case (Inl e)
      then show ?thesis using step None by simp
    next
      case (Inr src)
      then have "setitem h ra d src = (h1, r1)" using step None by simp
      then show ?thesis using setitem_prefix Cons.prems(2) by fastforce
    qed
  next
    case (Some sfs)
    then have "repack_composed_dim h d sfs ra sa = (h1, r1)" using step by simp
    then show ?thesis using repack_composed_dim_prefix Cons.prems(2,3) by blast
  qed
  show ?case
  proof (cases r1)
    case (Inl e)
    then have "(h', r) = (h1, Inl e)"
      using Cons.prems(1) step by (auto split: option.splits sum.splits prod.splits)
    then show ?thesis using p1 by simp
  next
    case (Inr x)
    then have "repack_dims h1 sa cd ns ra = (h', r)"
      using Cons.prems(1) step by (auto split: option.splits sum.splits prod.splits)
    moreover have "n \<le> length h1" using p1 Cons.prems(3) by simp
    ultimately have "take n h' = take n h1 \<and> length h1 \<le> length h'"
      using Cons.IH Cons.prems(2) by blast
    then show ?thesis using p1 by simp
  qed
qed

lemma zeros_like_columns:
  "zeros_like h a dt = (h0, z) \<Longrightarrow>
     take (length h) h0 = h \<and> length h \<le> length h0
     \<and> (\<forall>c\<in>snd ` set (columns z). length h \<le> c \<and> c < length h0)"
  by (auto simp: zeros_like_def dest!: set_zip_rightD)

lemma unpack_sub_fields_prefix:
  "take (length h) (fst (unpack_sub_fields h data pf)) = h"
proof -
  obtain h0 z where z: "zeros_like h data (dtype pf) = (h0, z)" by force
  obtain h1 r1 where u: "unpack_dims h0 data (composed_fields pf) (names data) z = (h1, r1)"
    by force
  have "take (length h) h1 = take (length h) h0"
    using unpack_dims_prefix [OF u, of "length h"] zeros_like_columns [OF z] by auto
  moreover have "fst (unpack_sub_fields h data pf) = h1"
    using z u by (cases r1) (simp_all add: unpack_sub_fields_def)
  ultimately show ?thesis using zeros_like_columns [OF z] by simp
qed

lemma repack_sub_fields_prefix:
  "take (length h) (fst (repack_sub_fields h sa pf)) = h"
proof -
  obtain h0 z where z: "zeros_like h sa (dtype pf) = (h0, z)" by force
  obtain h1 r1 where u: "repack_dims h0 sa (composed_fields pf) (names z) z = (h1, r1)"
    by force
  have "take (length h) h1 = take (length h) h0"
    using repack_dims_prefix [OF u, of "length h"] zeros_like_columns [OF z] by auto
  moreover have "fst (repack_sub_fields h sa pf) = h1"
    using z u by (cases r1) (simp_all add: repack_sub_fields_def)
  ultimately show ?thesis using zeros_like_columns [OF z] by simp
qed

lemma unpack_sub_fields_result:
  "snd (unpack_sub_fields h data pf) = Inr r \<Longrightarrow> r = snd (zeros_like h data (dtype pf))"
  by (auto simp: unpack_sub_fields_def Let_def split: prod.splits sum.splits)

lemma repack_sub_fields_result:
  "snd (repack_sub_fields h sa pf) = Inr r \<Longrightarrow> r = snd (zeros_like h sa (dtype pf))"
  by (auto simp: repack_sub_fields_def Let_def split: prod.splits sum.splits)

text \<open>
  Claim C9. Whatever the store, the input array and the point format, and whether the call
  returns or raises, the store that \<open>unpack_sub_fields\<close> or \<open>repack_sub_fields\<close> leaves has
  the store before the call as a prefix: no array that existed before the call is
  changed, so the input is as it was, also when \<open>pack\<close> raises \<^verbatim>\<open>OverflowError\<close> after
  some sub-fields have been packed. A result is the array that \<open>zeros_like\<close> has just
  allocated, whose columns are all at new addresses.
\<close>

theorem sub_fields_leave_input_unchanged:
  "take (length h) (fst (unpack_sub_fields h data pf)) = h
   \<and> take (length h) (fst (repack_sub_fields h data pf)) = h
   \<and> (snd (unpack_sub_fields h data pf) = Inr r \<longrightarrow>
        r = snd (zeros_like h data (dtype pf))
        \<and> (\<forall>c\<in>snd ` set (columns r). length h \<le> c))
   \<and> (snd (repack_sub_fields h data pf) = Inr r' \<longrightarrow>
        r' = snd (zeros_like h data (dtype pf))
        \<and> (\<forall>c\<in>snd ` set (columns r'). length h \<le> c))"
proof (intro conjI impI)
  show "take (length h) (fst (unpack_sub_fields h data pf)) = h"
    by (rule unpack_sub_fields_prefix)
  show "take (length h) (fst (repack_sub_fields h data pf)) = h"
    by (rule repack_sub_fields_prefix)
next
  assume "snd (unpack_sub_fields h data pf) = Inr r"
  then show r: "r = snd (zeros_like h data (dtype pf))" by (rule unpack_sub_fields_result)
  show "\<forall>c\<in>snd ` set (columns r). length h \<le> c"
    using zeros_like_columns [of h data "dtype pf" "fst (zeros_like h data (dtype pf))" r] r
    by simp
next
  assume "snd (repack_sub_fields h data pf) = Inr r'"
  then show r: "r' = snd (zeros_like h data (dtype pf))" by (rule repack_sub_fields_result)
  show "\<forall>c\<in>snd ` set (columns r'). length h \<le> c"
    using zeros_like_columns [of h data "dtype pf" "fst (zeros_like h data (dtype pf))" r'] r
    by simp
qed

theorem sub_fields_leave_input_unchanged_witness:
  "snd (repack_sub_fields
      [\<lparr>dtype_of = UInt W8, elems = [3]\<rparr>, \<lparr>dtype_of = UInt W8, elems = [11]\<rparr>]
      \<lparr>shape = 1, columns = [(''a'', 0), (''b'', 1)]\<rparr>
      \<lparr>composed_fields = [(''bits'',
          [\<lparr>sf_name = ''a'', sf_mask = 15\<rparr>, \<lparr>sf_name = ''b'', sf_mask = 240\<rparr>])],
        dtype = [(''bits'', UInt W8)]\<rparr>)
     = Inr \<lparr>shape = 1, columns = [(''bits'', 2)]\<rparr>
   \<and> take (length [\<lparr>dtype_of = UInt W8, elems = [3]\<rparr>, \<lparr>dtype_of = UInt W8, elems = [11]\<rparr>])
      (fst (repack_sub_fields
        [\<lparr>dtype_of = UInt W8, elems = [3]\<rparr>, \<lparr>dtype_of = UInt W8, elems = [11]\<rparr>]
        \<lparr>shape = 1, columns = [(''a'', 0), (''b'', 1)]\<rparr>
        \<lparr>composed_fields = [(''bits'',
            [\<lparr>sf_name = ''a'', sf_mask = 15\<rparr>, \<lparr>sf_name = ''b'', sf_mask = 240\<rparr>])],
          dtype = [(''bits'', UInt W8)]\<rparr>))
     = [\<lparr>dtype_of = UInt W8, elems = [3]\<rparr>, \<lparr>dtype_of = UInt W8, elems = [11]\<rparr>]
   \<and> snd (unpack_sub_fields
      [\<lparr>dtype_of = UInt W8, elems = [181]\<rparr>]
      \<lparr>shape = 1, columns = [(''bits'', 0)]\<rparr>
      \<lparr>composed_fields = [(''bits'',
          [\<lparr>sf_name = ''a'', sf_mask = 15\<rparr>, \<lparr>sf_name = ''b'', sf_mask = 240\<rparr>])],
        dtype = [(''a'', UInt W8), (''b'', UInt W8)]\<rparr>)
     = Inr \<lparr>shape = 1, columns = [(''a'', 1), (''b'', 2)]\<rparr>
   \<and> take (length [\<lparr>dtype_of = UInt W8, elems = [181]\<rparr>])
      (fst (unpack_sub_fields
        [\<lparr>dtype_of = UInt W8, elems = [181]\<rparr>]
        \<lparr>shape = 1, columns = [(''bits'', 0)]\<rparr>
        \<lparr>composed_fields = [(''bits'',
            [\<lparr>sf_name = ''a'', sf_mask = 15\<rparr>, \<lparr>sf_name = ''b'', sf_mask = 240\<rparr>])],
          dtype = [(''a'', UInt W8), (''b'', UInt W8)]\<rparr>))
     = [\<lparr>dtype_of = UInt W8, elems = [181]\<rparr>]"
proof -
  let ?h = "[\<lparr>dtype_of = UInt W8, elems = [3]\<rparr>, \<lparr>dtype_of = UInt W8, elems = [11]\<rparr>]"
  let ?d = "\<lparr>shape = 1, columns = [(''a'', 0), (''b'', 1)]\<rparr>"
  let ?pf = "\<lparr>composed_fields = [(''bits'',
          [\<lparr>sf_name = ''a'', sf_mask = 15\<rparr>, \<lparr>sf_name = ''b'', sf_mask = 240\<rparr>])],
        dtype = [(''bits'', UInt W8)]\<rparr>"
  let ?h' = "[\<lparr>dtype_of = UInt W8, elems = [181]\<rparr>]"
  let ?d' = "\<lparr>shape = 1, columns = [(''bits'', 0)]\<rparr>"
  let ?pf' = "\<lparr>composed_fields = [(''bits'',
          [\<lparr>sf_name = ''a'', sf_mask = 15\<rparr>, \<lparr>sf_name = ''b'', sf_mask = 240\<rparr>])],
        dtype = [(''a'', UInt W8), (''b'', UInt W8)]\<rparr>"
  have e1: "snd (repack_sub_fields ?h ?d ?pf) = Inr \<lparr>shape = 1, columns = [(''bits'', 2)]\<rparr>"
    by code_simp
  have e2: "snd (unpack_sub_fields ?h' ?d' ?pf') = Inr \<lparr>shape = 1, columns = [(''a'', 1), (''b'', 2)]\<rparr>"
    by code_simp
  note t1 = sub_fields_leave_input_unchanged
      [of ?h ?d ?pf "\<lparr>shape = 1, columns = [(''bits'', 2)]\<rparr>"
          "\<lparr>shape = 1, columns = [(''bits'', 2)]\<rparr>"]
  note t2 = sub_fields_leave_input_unchanged
      [of ?h' ?d' ?pf' "\<lparr>shape = 1, columns = [(''a'', 1), (''b'', 2)]\<rparr>"
          "\<lparr>shape = 1, columns = [(''a'', 1), (''b'', 2)]\<rparr>"]
  have c1: "take (length ?h) (fst (repack_sub_fields ?h ?d ?pf)) = ?h"
    using t1 by (rule conjunct1 [OF conjunct2])
  have c2: "take (length ?h') (fst (unpack_sub_fields ?h' ?d' ?pf')) = ?h'"
    using t2 by (rule conjunct1)
  show ?thesis using e1 c1 e2 c2 by (intro conjI)
qed

subsection \<open>Composed fields that the input does not have\<close>

lemma unpack_dims_cong:
  assumes "\<forall>d\<in>set ns. map_of cd d = map_of cd' d"
  shows "unpack_dims h data cd ns pr = unpack_dims h data cd' ns pr"
  using assms
proof (induction ns arbitrary: h)
  case Nil
  show ?case by simp
next
  case (Cons d ns)
  then have "map_of cd d = map_of cd' d"
    and "\<And>h. unpack_dims h data cd ns pr = unpack_dims h data cd' ns pr"
    by simp_all
  then show ?case by (auto split: option.splits sum.splits prod.splits)
qed

lemma map_of_filter_other:
  "d \<noteq> c \<Longrightarrow> map_of (filter (\<lambda>(n, sfs). n \<noteq> c) cd) d = map_of cd d"
  by (induction cd) auto

text \<open>
  Claim C6, as it holds on the code. \<open>unpack_sub_fields\<close> loops over the fields of the
  input array only: a composed field of the point format that the input array does not
  have is never looked at, and the call is the one for the point format without that
  composed field: the same store and the same result, or the same exception. It raises
  nothing on account of the absent field. In the example the format has the composed
  field \<open>bits\<close> and the input has the field \<open>x\<close> only: the call returns the array with the
  copy of \<open>x\<close>.
\<close>

theorem unpack_sub_fields_skips_absent_composed_field:
  "(c \<notin> set (names data) \<longrightarrow>
      unpack_sub_fields h data pf =
        unpack_sub_fields h data
          (pf\<lparr>composed_fields := filter (\<lambda>(n, sfs). n \<noteq> c) (composed_fields pf)\<rparr>))
   \<and> unpack_sub_fields [\<lparr>dtype_of = SInt W32, elems = [- 7]\<rparr>]
        \<lparr>shape = 1, columns = [(''x'', 0)]\<rparr>
        \<lparr>composed_fields = [(''bits'',
            [\<lparr>sf_name = ''a'', sf_mask = 15\<rparr>, \<lparr>sf_name = ''b'', sf_mask = 240\<rparr>])],
          dtype = [(''a'', UInt W8), (''b'', UInt W8), (''x'', SInt W32)]\<rparr> =
       ([\<lparr>dtype_of = SInt W32, elems = [- 7]\<rparr>, \<lparr>dtype_of = UInt W8, elems = [0]\<rparr>,
         \<lparr>dtype_of = UInt W8, elems = [0]\<rparr>, \<lparr>dtype_of = SInt W32, elems = [- 7]\<rparr>],
        Inr \<lparr>shape = 1, columns = [(''a'', 1), (''b'', 2), (''x'', 3)]\<rparr>)"
proof (intro conjI impI)
  assume c: "c \<notin> set (names data)"
  have "\<forall>d\<in>set (names data).
      map_of (composed_fields pf) d = map_of (filter (\<lambda>(n, sfs). n \<noteq> c) (composed_fields pf)) d"
  proof
    fix d assume "d \<in> set (names data)"
    with c have "d \<noteq> c" by auto
    then show "map_of (composed_fields pf) d =
        map_of (filter (\<lambda>(n, sfs). n \<noteq> c) (composed_fields pf)) d"
      by (simp add: map_of_filter_other)
  qed
  then have "\<And>h0 pr. unpack_dims h0 data (composed_fields pf) (names data) pr =
      unpack_dims h0 data (filter (\<lambda>(n, sfs). n \<noteq> c) (composed_fields pf)) (names data) pr"
    by (rule unpack_dims_cong)
  then show "unpack_sub_fields h data pf =
        unpack_sub_fields h data
          (pf\<lparr>composed_fields := filter (\<lambda>(n, sfs). n \<noteq> c) (composed_fields pf)\<rparr>)"
    by (simp add: unpack_sub_fields_def)
next
  show "unpack_sub_fields [\<lparr>dtype_of = SInt W32, elems = [- 7]\<rparr>]
        \<lparr>shape = 1, columns = [(''x'', 0)]\<rparr>
        \<lparr>composed_fields = [(''bits'',
            [\<lparr>sf_name = ''a'', sf_mask = 15\<rparr>, \<lparr>sf_name = ''b'', sf_mask = 240\<rparr>])],
          dtype = [(''a'', UInt W8), (''b'', UInt W8), (''x'', SInt W32)]\<rparr> =
       ([\<lparr>dtype_of = SInt W32, elems = [- 7]\<rparr>, \<lparr>dtype_of = UInt W8, elems = [0]\<rparr>,
         \<lparr>dtype_of = UInt W8, elems = [0]\<rparr>, \<lparr>dtype_of = SInt W32, elems = [- 7]\<rparr>],
        Inr \<lparr>shape = 1, columns = [(''a'', 1), (''b'', 2), (''x'', 3)]\<rparr>)"
    by code_simp
qed

theorem unpack_sub_fields_skips_absent_composed_field_witness:
  "''bits'' \<notin> set (names \<lparr>shape = 1, columns = [(''x'', 0)]\<rparr>)
   \<and> unpack_sub_fields [\<lparr>dtype_of = SInt W32, elems = [- 7]\<rparr>]
        \<lparr>shape = 1, columns = [(''x'', 0)]\<rparr>
        \<lparr>composed_fields = [(''bits'',
            [\<lparr>sf_name = ''a'', sf_mask = 15\<rparr>, \<lparr>sf_name = ''b'', sf_mask = 240\<rparr>])],
          dtype = [(''a'', UInt W8), (''b'', UInt W8), (''x'', SInt W32)]\<rparr> =
     unpack_sub_fields [\<lparr>dtype_of = SInt W32, elems = [- 7]\<rparr>]
        \<lparr>shape = 1, columns = [(''x'', 0)]\<rparr>
        \<lparr>composed_fields = [],
          dtype = [(''a'', UInt W8), (''b'', UInt W8), (''x'', SInt W32)]\<rparr>"
proof -
  have n: "''bits'' \<notin> set (names \<lparr>shape = 1, columns = [(''x'', 0)]\<rparr>)"
    by (simp add: names_def)
  show ?thesis
    using unpack_sub_fields_skips_absent_composed_field
      [of "''bits''" "\<lparr>shape = 1, columns = [(''x'', 0)]\<rparr>"
          "[\<lparr>dtype_of = SInt W32, elems = [- 7]\<rparr>]"
          "\<lparr>composed_fields = [(''bits'',
            [\<lparr>sf_name = ''a'', sf_mask = 15\<rparr>, \<lparr>sf_name = ''b'', sf_mask = 240\<rparr>])],
          dtype = [(''a'', UInt W8), (''b'', UInt W8), (''x'', SInt W32)]\<rparr>"]
      n by simp
qed

text \<open>
  Claim C6 as the specification states it fails: the point format defines the composed
  field \<open>bits\<close>, the input array has no field of that name, and \<open>unpack_sub_fields\<close>
  returns an array; it raises nothing.
\<close>

theorem unpack_sub_fields_absent_composed_field_no_error:
  "map_of (composed_fields
      \<lparr>composed_fields = [(''bits'',
          [\<lparr>sf_name = ''a'', sf_mask = 15\<rparr>, \<lparr>sf_name = ''b'', sf_mask = 240\<rparr>])],
        dtype = [(''a'', UInt W8), (''b'', UInt W8), (''x'', SInt W32)]\<rparr>) ''bits'' \<noteq> None
   \<and> ''bits'' \<notin> set (names \<lparr>shape = 1, columns = [(''x'', 0)]\<rparr>)
   \<and> snd (unpack_sub_fields [\<lparr>dtype_of = SInt W32, elems = [- 7]\<rparr>]
        \<lparr>shape = 1, columns = [(''x'', 0)]\<rparr>
        \<lparr>composed_fields = [(''bits'',
            [\<lparr>sf_name = ''a'', sf_mask = 15\<rparr>, \<lparr>sf_name = ''b'', sf_mask = 240\<rparr>])],
          dtype = [(''a'', UInt W8), (''b'', UInt W8), (''x'', SInt W32)]\<rparr>) =
       Inr \<lparr>shape = 1, columns = [(''a'', 1), (''b'', 2), (''x'', 3)]\<rparr>"
  by code_simp

subsection \<open>pack: the array that a successful call builds\<close>

lemma nbits_pos: "8 \<le> nbits w"
  by (cases w) simp_all

lemma cast_eqI:
  assumes "\<And>i. i < bits t \<Longrightarrow> bit u i = bit v i"
  shows "cast t u = cast t v"
proof (cases t)
  case (UInt w)
  then show ?thesis using assms by (auto intro!: bit_eqI simp: bit_take_bit_iff)
next
  case (SInt w)
  have "min (nbits w - 1) k < nbits w" for k using nbits_pos [of w] by simp
  then show ?thesis using assms SInt by (auto intro!: bit_eqI simp: bit_signed_take_bit_iff)
qed

lemma cast_idem: "cast t (cast t v) = cast t v"
  by (rule cast_eqI) (simp add: bit_cast)

lemma cast_or_cast: "cast t (cast t u OR cast t v) = cast t (u OR v)"
  by (rule cast_eqI) (simp add: bit_cast bit_or_iff)

lemma cast_in_range: "in_range t v \<Longrightarrow> cast t v = v"
  by (cases t) (simp_all add: take_bit_int_eq_self signed_take_bit_int_eq_self)

lemma in_range_cast: "in_range t (cast t v)"
proof (cases t)
  case (UInt w)
  then show ?thesis by simp
next
  case (SInt w)
  then show ?thesis
    using signed_take_bit_int_greater_eq_minus_exp [of "nbits w - 1" v]
      signed_take_bit_int_less_exp [of "nbits w - 1" v] by simp
qed

lemma broadcast2_to:
  assumes "length ys = length xs \<or> length ys = 1"
  shows "broadcast2 f xs ys = Inr (map2 f xs (broadcast_to ys (length xs)))"
proof (cases "length ys = length xs")
  case True
  then show ?thesis by (simp add: broadcast2_def broadcast_to_def)
next
  case False
  then have "length ys = 1" using assms by simp
  moreover have "map (\<lambda>x. f x y) xs = map2 f xs (replicate (length xs) y)" for y
    by (induction xs) simp_all
  ultimately show ?thesis using False by (simp add: broadcast2_def broadcast_to_def)
qed

lemma broadcast_to_map:
  "ys \<noteq> [] \<Longrightarrow> broadcast_to (map g ys) n = map g (broadcast_to ys n)"
  by (simp add: broadcast_to_def hd_map)

lemma length_broadcast_to: "length (broadcast_to ys n) = n"
  by (simp add: broadcast_to_def)

lemma set_broadcast_to: "ys \<noteq> [] \<Longrightarrow> set (broadcast_to ys n) \<subseteq> set ys"
  by (auto simp: broadcast_to_def)

lemma least_significant_bit_le:
  assumes "msk \<noteq> 0" "- (2 ^ n) \<le> msk" "msk \<le> 2 ^ n"
  shows "0 \<le> least_significant_bit msk \<and> least_significant_bit msk \<le> int n"
proof -
  obtain k where k: "least_significant_bit msk = int k" "msk AND - msk = 2 ^ k"
    using least_significant_bit_nonzero [OF assms(1)] by blast
  have le: "(2::int) ^ k \<le> 2 ^ n"
  proof (cases "0 \<le> msk")
    case True
    then have "msk AND - msk \<le> msk" by (rule AND_upper1)
    with k(2) assms(3) show ?thesis by linarith
  next
    case False
    then have "0 \<le> - msk" by simp
    then have "msk AND - msk \<le> - msk" by (rule AND_upper2)
    with k(2) assms(2) show ?thesis by linarith
  qed
  have "k \<le> n" by (rule power_le_imp_le_exp [OF _ le]) simp
  with k(1) show ?thesis by simp
qed

lemma wider_W8: "wider a W8 = a"
  by (cases a) (simp_all add: wider_def)

lemma result_type_shift: "0 \<le> l \<Longrightarrow> l < 128 \<Longrightarrow> result_type t l = Inr t"
proof (cases t)
  case (UInt w)
  assume "0 \<le> l" "l < 128"
  then show ?thesis using UInt by (cases w) (simp_all add: result_type_def loops_def)
next
  case (SInt w)
  assume "0 \<le> l" "l < 128"
  then show ?thesis using SInt by (cases w) (simp_all add: result_type_def loops_def)
qed

lemma result_type_not_lsb:
  assumes "msk \<noteq> 0" "result_type t (NOT msk) = Inr t1"
  shows "0 \<le> least_significant_bit msk \<and> least_significant_bit msk < 128"
proof -
  have "- (2 ^ 63) \<le> NOT msk \<and> NOT msk < 2 ^ 64" using assms(2) by (rule result_type_bounds)
  then have "- (2 ^ 64) \<le> msk \<and> msk \<le> 2 ^ 64" by (simp add: not_int_def)
  then show ?thesis using least_significant_bit_le [OF assms(1), of 64] by simp
qed

lemma packed_bits_eq:
  assumes "0 \<le> l" "l < 128" "result_type (dtype_of b) msk = Inr t3"
  shows "packed_bits b l msk t =
    Inr \<lparr>dtype_of = t, elems = map (\<lambda>v. cast t (cast (dtype_of b) (push_bit (nat l) v) AND msk)) (elems b)\<rparr>"
  using assms
  by (simp add: packed_bits_def np_left_shift_def result_type_shift np_and_def astype_def o_def)

lemma map2_map_left: "map2 f (map g xs) ys = map2 (\<lambda>x y. f (g x) y) xs ys"
  by (induction xs arbitrary: ys) (auto split: list.splits simp: zip_Cons1)

lemma map2_map_right: "map2 f xs (map g ys) = map2 (\<lambda>x y. f x (g y)) xs ys"
  by (induction xs arbitrary: ys) (auto split: list.splits simp: zip_Cons1)

lemma map_map2: "map k (map2 f xs ys) = map2 (\<lambda>x y. k (f x y)) xs ys"
  by (induction xs arbitrary: ys) (auto split: list.splits simp: zip_Cons1)

lemma pack_inplace_eq:
  assumes a: "a < length h" and ne: "a \<noteq> s" and m0: "msk \<noteq> 0"
    and vs: "elems (h ! s) \<noteq> []"
    and rg: "\<forall>v\<in>set (elems (h ! s)). v \<le> drop_bit (nat (least_significant_bit msk)) msk"
    and t1: "result_type (dtype_of (h ! a)) (NOT msk) = Inr t1"
    and t3: "result_type (dtype_of (h ! s)) msk = Inr t3"
    and len: "length (elems (h ! s)) = length (elems (h ! a)) \<or> length (elems (h ! s)) = 1"
  shows "pack h a s msk True =
    (h[a := \<lparr>dtype_of = dtype_of (h ! a), elems =
        map2 (\<lambda>x v. cast (dtype_of (h ! a))
                 ((x AND NOT msk)
                    OR (cast (dtype_of (h ! s)) (push_bit (nat (least_significant_bit msk)) v) AND msk)))
          (elems (h ! a)) (broadcast_to (elems (h ! s)) (length (elems (h ! a))))\<rparr>],
     Inr None)"
proof -
  define dt where "dt = dtype_of (h ! a)"
  define ds where "ds = dtype_of (h ! s)"
  define xs where "xs = elems (h ! a)"
  define l where "l = least_significant_bit msk"
  define h1 where "h1 = h[a := \<lparr>dtype_of = dt, elems = map (\<lambda>x. cast dt (x AND NOT msk)) xs\<rparr>]"
  define sp where "sp = \<lparr>dtype_of = dt, elems =
      map (\<lambda>v. cast dt (cast ds (push_bit (nat l) v) AND msk)) (elems (h ! s))\<rparr>"
  have l: "0 \<le> l" "l < 128" using result_type_not_lsb [OF m0 t1] by (simp_all add: l_def)
  have "Max (set (elems (h ! s))) \<in> set (elems (h ! s))" using vs by (simp add: Max_in)
  then have mx: "\<not> drop_bit (nat l) msk < Max (set (elems (h ! s)))"
    using rg by (auto simp: l_def not_less)
  have s1: "np_and (h ! a) (NOT msk) = Inr \<lparr>dtype_of = t1, elems = map (\<lambda>x. x AND NOT msk) xs\<rparr>"
    using t1 by (simp add: np_and_def xs_def)
  have s2: "assign_slice h a \<lparr>dtype_of = t1, elems = map (\<lambda>x. x AND NOT msk) xs\<rparr> = (h1, Inr ())"
    by (simp add: assign_slice_def Let_def h1_def astype_def dt_def xs_def o_def)
  have h1a: "h1 ! a = \<lparr>dtype_of = dt, elems = map (\<lambda>x. cast dt (x AND NOT msk)) xs\<rparr>"
    using a by (simp add: h1_def)
  have h1s: "h1 ! s = h ! s" using ne by (simp add: h1_def)
  have s3: "packed_bits (h1 ! s) l msk (dtype_of (h1 ! a)) = Inr sp"
    using packed_bits_eq [OF l, of "h ! s" msk t3 dt] t3 by (simp add: h1s h1a sp_def ds_def)
  have len': "length (elems sp) = length (elems (h1 ! a)) \<or> length (elems sp) = 1"
    using len by (simp add: sp_def h1a xs_def)
  define vs2 where "vs2 = map2 (OR) (elems (h1 ! a)) (broadcast_to (elems sp) (length (elems (h1 ! a))))"
  have s4: "np_or (h1 ! a) sp = Inr \<lparr>dtype_of = dt, elems = vs2\<rparr>"
    using broadcast2_to [OF len', of "(OR)"]
    by (simp add: np_or_def h1a sp_def promote_types_same vs2_def)
  have lvs2: "length vs2 = length xs"
    by (simp add: vs2_def h1a length_broadcast_to)
  have s5: "assign_slice h1 a \<lparr>dtype_of = dt, elems = vs2\<rparr> =
      (h1[a := \<lparr>dtype_of = dt, elems = map (cast dt) vs2\<rparr>], Inr ())"
    using lvs2 by (simp add: assign_slice_def Let_def h1a astype_def)
  have vals: "map (cast dt) vs2 =
      map2 (\<lambda>x v. cast dt ((x AND NOT msk) OR (cast ds (push_bit (nat l) v) AND msk)))
        xs (broadcast_to (elems (h ! s)) (length xs))"
    using vs
    by (auto simp: vs2_def h1a sp_def broadcast_to_map map2_map_left map2_map_right map_map2
        cast_or_cast)
  have pr: "py_rshift msk l = Inr (drop_bit (nat l) msk)"
    using py_rshift_lsb [OF m0] by (simp add: l_def)
  have "pack h a s msk True = (h1[a := \<lparr>dtype_of = dt, elems = map (cast dt) vs2\<rparr>], Inr None)"
    unfolding pack_def l_def [symmetric] Let_def
    using mx by (simp add: pr np_max_nonempty [OF vs] s1 s2 s3 s4 s5)
  then show ?thesis
    unfolding vals h1_def by (simp add: dt_def ds_def xs_def l_def)
qed

lemma py_rshift_Inr: "py_rshift msk (least_significant_bit msk) = Inr mx \<Longrightarrow>
    msk \<noteq> 0 \<and> mx = drop_bit (nat (least_significant_bit msk)) msk"
  by (auto simp: py_rshift_def least_significant_bit_zero split: if_splits)

lemma np_max_Inr:
  assumes "np_max b = Inr m"
  shows "elems b \<noteq> [] \<and> (\<forall>v\<in>set (elems b). v \<le> m)"
proof -
  have ne: "elems b \<noteq> []" using assms by (rule np_max_Inr_nonempty)
  then have "m = Max (set (elems b))" using assms by (simp add: np_max_nonempty)
  then show ?thesis using ne by simp
qed

lemma packed_bits_Inr:
  assumes "packed_bits b l msk t = Inr sp" "0 \<le> l" "l < 128"
  shows "\<exists>t3. result_type (dtype_of b) msk = Inr t3"
  using assms
  by (auto simp: packed_bits_def np_left_shift_def result_type_shift np_and_def split: sum.splits)

lemma pack_common_facts:
  assumes mx: "py_rshift msk (least_significant_bit msk) = Inr mx"
    and m: "np_max (h ! s) = Inr m" and le: "\<not> mx < m"
    and t1: "np_and (h ! a) (NOT msk) = Inr t1"
    and sp: "packed_bits (h ! s) (least_significant_bit msk) msk t = Inr sp"
  shows "msk \<noteq> 0 \<and> elems (h ! s) \<noteq> []
    \<and> (\<forall>v\<in>set (elems (h ! s)). v \<le> drop_bit (nat (least_significant_bit msk)) msk)
    \<and> result_type (dtype_of (h ! a)) (NOT msk) = Inr (dtype_of t1)
    \<and> (\<exists>t3. result_type (dtype_of (h ! s)) msk = Inr t3)"
proof -
  have m0: "msk \<noteq> 0" and mxv: "mx = drop_bit (nat (least_significant_bit msk)) msk"
    using py_rshift_Inr [OF mx] by simp_all
  have r1: "result_type (dtype_of (h ! a)) (NOT msk) = Inr (dtype_of t1)"
    using np_and_Inr [OF t1] by simp
  have l: "0 \<le> least_significant_bit msk" "least_significant_bit msk < 128"
    using result_type_not_lsb [OF m0 r1] by simp_all
  have "\<exists>t3. result_type (dtype_of (h ! s)) msk = Inr t3"
    using packed_bits_Inr [OF sp l] .
  moreover have "\<forall>v\<in>set (elems (h ! s)). v \<le> drop_bit (nat (least_significant_bit msk)) msk"
    using np_max_Inr [OF m] le mxv by auto
  ultimately show ?thesis using m0 r1 np_max_Inr [OF m] by blast
qed

lemma broadcast2_Inr_length:
  assumes "broadcast2 f xs ys = Inr vs"
  shows "(length ys = length xs \<or> length ys = 1 \<or> length xs = 1)
    \<and> length vs = (if length ys = length xs \<or> length ys = 1 then length xs else length ys)"
  using assms by (auto simp: broadcast2_def split: if_splits)

lemma assign_slice_Inr_length:
  assumes "assign_slice h a v = (h', Inr u)"
  shows "length (elems v) = length (elems (h ! a)) \<or> length (elems v) = 1"
  using assms by (auto simp: assign_slice_def Let_def split: if_splits)

lemma pack_inplace_facts:
  assumes p: "pack h a s msk True = (h', Inr r)" and a: "a < length h" and ne: "a \<noteq> s"
  shows "msk \<noteq> 0 \<and> elems (h ! s) \<noteq> []
    \<and> (\<forall>v\<in>set (elems (h ! s)). v \<le> drop_bit (nat (least_significant_bit msk)) msk)
    \<and> (\<exists>t1. result_type (dtype_of (h ! a)) (NOT msk) = Inr t1)
    \<and> (\<exists>t3. result_type (dtype_of (h ! s)) msk = Inr t3)
    \<and> (length (elems (h ! s)) = length (elems (h ! a)) \<or> length (elems (h ! s)) = 1)"
proof -
  from p obtain mx m t1 h1 sp t2 where st:
    "py_rshift msk (least_significant_bit msk) = Inr mx"
    "np_max (h ! s) = Inr m" "\<not> mx < m"
    "np_and (h ! a) (NOT msk) = Inr t1"
    "assign_slice h a t1 = (h1, Inr ())"
    "packed_bits (h1 ! s) (least_significant_bit msk) msk (dtype_of (h1 ! a)) = Inr sp"
    "np_or (h1 ! a) sp = Inr t2"
    "assign_slice h1 a t2 = (h', Inr ())"
    by (rule pack_inplace_steps)
  have t1: "elems t1 = map (\<lambda>x. x AND NOT msk) (elems (h ! a))"
    using np_and_Inr [OF st(4)] by simp
  then have "length (elems t1) = length (elems (h ! a))" by simp
  then have h1: "h1 = h[a := astype t1 (dtype_of (h ! a))]"
    using st(5) assign_slice_same_length [of t1 h a] by simp
  have h1s: "h1 ! s = h ! s" using ne by (simp add: h1)
  have h1a: "length (elems (h1 ! a)) = length (elems (h ! a))"
    using a by (simp add: h1 astype_def t1)
  have sp: "packed_bits (h ! s) (least_significant_bit msk) msk (dtype_of (h1 ! a)) = Inr sp"
    using st(6) by (simp add: h1s)
  note cf = pack_common_facts [OF st(1,2,3,4) sp]
  have lsp: "length (elems sp) = length (elems (h ! s))"
    using packed_bits_elems [OF sp] by simp
  have bc: "broadcast2 (OR) (elems (h1 ! a)) (elems sp) = Inr (elems t2)"
    using np_or_Inr [OF st(7)] by simp
  have "length (elems (h ! s)) = length (elems (h ! a)) \<or> length (elems (h ! s)) = 1"
    using broadcast2_Inr_length [OF bc] assign_slice_Inr_length [OF st(8)]
    by (auto simp: h1a lsp split: if_splits)
  then show ?thesis using cf by blast
qed

lemma pack_copy_eq:
  assumes m0: "msk \<noteq> 0"
    and vs: "elems (h ! s) \<noteq> []"
    and rg: "\<forall>v\<in>set (elems (h ! s)). v \<le> drop_bit (nat (least_significant_bit msk)) msk"
    and t1: "result_type (dtype_of (h ! a)) (NOT msk) = Inr t1"
    and t3: "result_type (dtype_of (h ! s)) msk = Inr t3"
    and len: "length (elems (h ! s)) = length (elems (h ! a)) \<or> length (elems (h ! s)) = 1"
  shows "pack h a s msk False =
    (h @ [\<lparr>dtype_of = t1, elems =
        map2 (\<lambda>x v. (x AND NOT msk)
                 OR cast t1 (cast (dtype_of (h ! s))
                      (push_bit (nat (least_significant_bit msk)) v) AND msk))
          (elems (h ! a)) (broadcast_to (elems (h ! s)) (length (elems (h ! a))))\<rparr>],
     Inr (Some (length h)))"
proof -
  define ds where "ds = dtype_of (h ! s)"
  define xs where "xs = elems (h ! a)"
  define l where "l = least_significant_bit msk"
  define sp where "sp = \<lparr>dtype_of = t1, elems =
      map (\<lambda>v. cast t1 (cast ds (push_bit (nat l) v) AND msk)) (elems (h ! s))\<rparr>"
  define ar where "ar = \<lparr>dtype_of = t1, elems = map (\<lambda>x. x AND NOT msk) xs\<rparr>"
  have l: "0 \<le> l" "l < 128" using result_type_not_lsb [OF m0 t1] by (simp_all add: l_def)
  have "Max (set (elems (h ! s))) \<in> set (elems (h ! s))" using vs by (simp add: Max_in)
  then have mx: "\<not> drop_bit (nat l) msk < Max (set (elems (h ! s)))"
    using rg by (auto simp: l_def not_less)
  have s1: "np_and (h ! a) (NOT msk) = Inr ar"
    using t1 by (simp add: np_and_def xs_def ar_def)
  have s3: "packed_bits (h ! s) l msk (dtype_of ar) = Inr sp"
    using packed_bits_eq [OF l, of "h ! s" msk t3 t1] t3 by (simp add: sp_def ds_def ar_def)
  have len': "length (elems sp) = length (elems ar) \<or> length (elems sp) = 1"
    using len by (simp add: sp_def ar_def xs_def)
  define vs2 where "vs2 = map2 (OR) (elems ar) (broadcast_to (elems sp) (length (elems ar)))"
  have s4: "np_or ar sp = Inr \<lparr>dtype_of = t1, elems = vs2\<rparr>"
    using broadcast2_to [OF len', of "(OR)"]
    by (simp add: np_or_def ar_def sp_def promote_types_same vs2_def)
  have vals: "vs2 =
      map2 (\<lambda>x v. (x AND NOT msk) OR cast t1 (cast ds (push_bit (nat l) v) AND msk))
        xs (broadcast_to (elems (h ! s)) (length xs))"
    using vs
    by (auto simp: vs2_def ar_def sp_def broadcast_to_map map2_map_left map2_map_right)
  have pr: "py_rshift msk l = Inr (drop_bit (nat l) msk)"
    using py_rshift_lsb [OF m0] by (simp add: l_def)
  have "pack h a s msk False = (h @ [\<lparr>dtype_of = t1, elems = vs2\<rparr>], Inr (Some (length h)))"
    unfolding pack_def l_def [symmetric] Let_def
    using mx by (simp add: pr np_max_nonempty [OF vs] s1 s3 s4 alloc_def)
  then show ?thesis
    unfolding vals by (simp add: ds_def xs_def l_def)
qed

subsection \<open>pack: in place and not in place\<close>

lemma twice_gt: "twice a = Some z \<Longrightarrow> nbits a < nbits z"
  by (cases a) auto

lemma promote_types_in_range:
  assumes "promote_types t m = Some t'" "in_range t v"
  shows "in_range t' v"
proof (cases t)
  case ta: (UInt a)
  show ?thesis
  proof (cases m)
    case (UInt b)
    then show ?thesis using assms ta in_range_UInt_mono [of a "wider a b" v]
      by (auto simp: wider_def)
  next
    case (SInt b)
    then show ?thesis using assms ta in_range_UInt_SInt [of a _ v]
      by (auto split: if_splits dest: twice_gt)
  qed
next
  case ta: (SInt a)
  show ?thesis
  proof (cases m)
    case (UInt b)
    have "nbits a \<le> nbits z" if "\<not> nbits b < nbits a" "twice b = Some z" for z
      using that twice_gt [of b z] by simp
    then show ?thesis using assms ta UInt in_range_SInt_mono [of a _ v]
      by (auto split: if_splits)
  next
    case (SInt b)
    then show ?thesis using assms ta in_range_SInt_mono [of a "wider a b" v]
      by (auto simp: wider_def)
  qed
qed

lemma result_type_in_range:
  "result_type t s = Inr t' \<Longrightarrow> in_range t v \<Longrightarrow> in_range t' v"
  using result_type_Inr [of t s t'] can_cast_in_range [of t t' v] by blast

lemma in_range_between: "in_range t m \<Longrightarrow> 0 \<le> v \<Longrightarrow> v \<le> m \<Longrightarrow> in_range t v"
  by (cases t) auto

lemma cast_pack_value:
  assumes x: "in_range t x" and m: "in_range t msk" and m0: "0 \<le> msk"
  shows "cast t ((x AND NOT msk) OR (p AND msk)) = (x AND NOT msk) OR (p AND msk)"
proof (cases t)
  case (UInt w)
  have x': "0 \<le> x" "x < 2 ^ nbits w" and m': "msk < 2 ^ nbits w"
    using x m UInt by simp_all
  have a: "0 \<le> x AND NOT msk" using x'(1) by simp
  have "x AND NOT msk \<le> x" using x'(1) by (rule AND_upper1)
  then have a': "x AND NOT msk < 2 ^ nbits w" using x'(2) by linarith
  have b: "0 \<le> p AND msk" using m0 by simp
  have "p AND msk \<le> msk" using m0 by (rule AND_upper2)
  then have b': "p AND msk < 2 ^ nbits w" using m' by linarith
  have "0 \<le> (x AND NOT msk) OR (p AND msk)" using a b by simp
  moreover have "(x AND NOT msk) OR (p AND msk) < 2 ^ nbits w" using a a' b' by (rule OR_upper)
  ultimately have "take_bit (nbits w) ((x AND NOT msk) OR (p AND msk)) = (x AND NOT msk) OR (p AND msk)"
    by (rule take_bit_int_eq_self)
  then show ?thesis by (simp only: UInt cast.simps)
next
  case (SInt w)
  define n where "n = nbits w - 1"
  define y where "y = (x AND NOT msk) OR (p AND msk)"
  have sx: "signed_take_bit n x = x" and tm: "take_bit n msk = msk"
    using x m m0 SInt by (simp_all add: n_def signed_take_bit_int_eq_self take_bit_int_eq_self)
  have bx: "bit x (min n i) = bit x i" for i
    using bit_signed_take_bit_iff [of n x i] by (simp add: sx)
  have bm: "i < n" if "bit msk i" for i
    using that bit_take_bit_iff [of n msk i] by (simp add: tm)
  have key: "bit y (min n i) = bit y i" for i
  proof (cases "i \<le> n")
    case True
    then show ?thesis by (simp add: min_def)
  next
    case False
    then have mn: "min n i = n" by simp
    have "\<not> bit msk n" using bm [of n] by auto
    moreover have "\<not> bit msk i" using bm [of i] False by auto
    moreover have "bit x n = bit x i" using bx [of i] mn by simp
    ultimately show ?thesis by (simp add: y_def mn bit_or_iff bit_and_iff bit_not_iff)
  qed
  have "signed_take_bit n y = y"
  proof (rule bit_eqI)
    fix i
    show "bit (signed_take_bit n y) i = bit y i"
      using key [of i] by (simp add: bit_signed_take_bit_iff)
  qed
  then show ?thesis by (simp only: SInt cast.simps n_def y_def)
qed

lemma pack_modes_agree_elem:
  assumes x: "in_range t x" and m: "in_range t msk" and m0: "0 \<le> msk"
    and t1: "result_type t (NOT msk) = Inr t1"
  shows "cast t ((x AND NOT msk) OR (p AND msk)) = (x AND NOT msk) OR cast t1 (p AND msk)"
proof -
  have "0 \<le> p AND msk" "p AND msk \<le> msk" using m0 by (simp_all add: AND_upper2)
  moreover have "in_range t1 msk" using result_type_in_range [OF t1 m] .
  ultimately have "in_range t1 (p AND msk)" using in_range_between by blast
  then have "cast t1 (p AND msk) = p AND msk" by (rule cast_in_range)
  then show ?thesis using cast_pack_value [OF x m m0] by simp
qed

lemma map2_cong_left:
  assumes "\<And>x y. x \<in> set xs \<Longrightarrow> f x y = g x y"
  shows "map2 f xs ys = map2 g xs ys"
  using assms by (auto dest: set_zip_leftD)

lemma pack_modes_agree:
  assumes a: "a < length h" and ne: "a \<noteq> s" and m0: "0 < msk"
    and mr: "in_range (dtype_of (h ! a)) msk"
    and xr: "\<forall>x\<in>set (elems (h ! a)). in_range (dtype_of (h ! a)) x"
    and vs: "elems (h ! s) \<noteq> []"
    and rg: "\<forall>v\<in>set (elems (h ! s)). v \<le> drop_bit (nat (least_significant_bit msk)) msk"
    and t1: "result_type (dtype_of (h ! a)) (NOT msk) = Inr t1"
    and t3: "result_type (dtype_of (h ! s)) msk = Inr t3"
    and len: "length (elems (h ! s)) = length (elems (h ! a)) \<or> length (elems (h ! s)) = 1"
  shows "\<exists>es. pack h a s msk True = (h[a := \<lparr>dtype_of = dtype_of (h ! a), elems = es\<rparr>], Inr None)
    \<and> pack h a s msk False = (h @ [\<lparr>dtype_of = t1, elems = es\<rparr>], Inr (Some (length h)))"
proof -
  have m0': "msk \<noteq> 0" "0 \<le> msk" using m0 by simp_all
  note i = pack_inplace_eq [OF a ne m0'(1) vs rg t1 t3 len]
  note c = pack_copy_eq [OF m0'(1) vs rg t1 t3 len]
  have eq: "map2 (\<lambda>x v. cast (dtype_of (h ! a))
                 ((x AND NOT msk)
                    OR (cast (dtype_of (h ! s)) (push_bit (nat (least_significant_bit msk)) v) AND msk)))
          (elems (h ! a)) (broadcast_to (elems (h ! s)) (length (elems (h ! a))))
      = map2 (\<lambda>x v. (x AND NOT msk)
                 OR cast t1 (cast (dtype_of (h ! s))
                      (push_bit (nat (least_significant_bit msk)) v) AND msk))
          (elems (h ! a)) (broadcast_to (elems (h ! s)) (length (elems (h ! a))))"
    by (rule map2_cong_left) (use xr mr m0'(2) t1 in \<open>simp add: pack_modes_agree_elem\<close>)
  show ?thesis using i [unfolded eq] c by blast
qed

text \<open>
  Where the two branches of \<open>pack\<close> give the same element values: the destination and the
  sub-field array are two different buffers, the mask is positive and within the element
  type of the destination, and the elements of the destination are values of its element
  type. If \<open>pack\<close> succeeds with \<^verbatim>\<open>inplace\<close>, it returns \<^verbatim>\<open>None\<close>, changes no array but
  the destination, which keeps its element type, and the call without \<^verbatim>\<open>inplace\<close> on the
  same store succeeds too: it leaves every array as it was and returns a new array with
  the element values that the call in place has left in the destination. If \<open>pack\<close>
  succeeds without \<^verbatim>\<open>inplace\<close> on arrays of the same length, it succeeds in place too,
  with the same element values.
\<close>

lemma pack_modes_agree_distinct_buffers:
  "(a < length h \<and> a \<noteq> s \<and> 0 < msk \<and> in_range (dtype_of (h ! a)) msk
      \<and> (\<forall>x\<in>set (elems (h ! a)). in_range (dtype_of (h ! a)) x)
      \<and> pack h a s msk True = (hi, Inr ri) \<longrightarrow>
        ri = None \<and> length hi = length h \<and> (\<forall>b. b \<noteq> a \<longrightarrow> hi ! b = h ! b)
        \<and> dtype_of (hi ! a) = dtype_of (h ! a)
        \<and> (\<exists>res. pack h a s msk False = (h @ [res], Inr (Some (length h)))
              \<and> elems res = elems (hi ! a)))
   \<and> (a < length h \<and> a \<noteq> s \<and> 0 < msk \<and> in_range (dtype_of (h ! a)) msk
      \<and> (\<forall>x\<in>set (elems (h ! a)). in_range (dtype_of (h ! a)) x)
      \<and> length (elems (h ! s)) = length (elems (h ! a))
      \<and> pack h a s msk False = (hc, Inr rc) \<longrightarrow>
        (\<exists>res hi'. hc = h @ [res] \<and> rc = Some (length h)
              \<and> pack h a s msk True = (hi', Inr None)
              \<and> elems (hi' ! a) = elems res))"
proof (intro conjI impI)
  assume H: "a < length h \<and> a \<noteq> s \<and> 0 < msk \<and> in_range (dtype_of (h ! a)) msk
      \<and> (\<forall>x\<in>set (elems (h ! a)). in_range (dtype_of (h ! a)) x)
      \<and> pack h a s msk True = (hi, Inr ri)"
  then have f: "elems (h ! s) \<noteq> []"
    "\<forall>v\<in>set (elems (h ! s)). v \<le> drop_bit (nat (least_significant_bit msk)) msk"
    "\<exists>t1. result_type (dtype_of (h ! a)) (NOT msk) = Inr t1"
    "\<exists>t3. result_type (dtype_of (h ! s)) msk = Inr t3"
    "length (elems (h ! s)) = length (elems (h ! a)) \<or> length (elems (h ! s)) = 1"
    using pack_inplace_facts [of h a s msk hi ri] by blast+
  then obtain t1 t3 where t: "result_type (dtype_of (h ! a)) (NOT msk) = Inr t1"
    "result_type (dtype_of (h ! s)) msk = Inr t3" by blast
  obtain es where es:
    "pack h a s msk True = (h[a := \<lparr>dtype_of = dtype_of (h ! a), elems = es\<rparr>], Inr None)"
    "pack h a s msk False = (h @ [\<lparr>dtype_of = t1, elems = es\<rparr>], Inr (Some (length h)))"
    using pack_modes_agree [of a h s msk t1 t3] H f(1,2,5) t by blast
  have hi: "hi = h[a := \<lparr>dtype_of = dtype_of (h ! a), elems = es\<rparr>]" and ri: "ri = None"
    using H es(1) by simp_all
  show "ri = None" by (rule ri)
  show "length hi = length h" by (simp add: hi)
  show "\<forall>b. b \<noteq> a \<longrightarrow> hi ! b = h ! b" by (simp add: hi)
  show "dtype_of (hi ! a) = dtype_of (h ! a)" using H by (simp add: hi)
  show "\<exists>res. pack h a s msk False = (h @ [res], Inr (Some (length h)))
      \<and> elems res = elems (hi ! a)"
    using es(2) H by (simp add: hi)
next
  assume H: "a < length h \<and> a \<noteq> s \<and> 0 < msk \<and> in_range (dtype_of (h ! a)) msk
      \<and> (\<forall>x\<in>set (elems (h ! a)). in_range (dtype_of (h ! a)) x)
      \<and> length (elems (h ! s)) = length (elems (h ! a))
      \<and> pack h a s msk False = (hc, Inr rc)"
  then obtain mx m t1 sp res where st:
    "py_rshift msk (least_significant_bit msk) = Inr mx"
    "np_max (h ! s) = Inr m" "\<not> mx < m"
    "np_and (h ! a) (NOT msk) = Inr t1"
    "packed_bits (h ! s) (least_significant_bit msk) msk (dtype_of t1) = Inr sp"
    using pack_copy_steps [of h a s msk hc rc] by metis
  note cf = pack_common_facts [OF st]
  then obtain t3 where t3: "result_type (dtype_of (h ! s)) msk = Inr t3" by blast
  obtain es where es:
    "pack h a s msk True = (h[a := \<lparr>dtype_of = dtype_of (h ! a), elems = es\<rparr>], Inr None)"
    "pack h a s msk False = (h @ [\<lparr>dtype_of = dtype_of t1, elems = es\<rparr>], Inr (Some (length h)))"
    using pack_modes_agree [of a h s msk "dtype_of t1" t3] H cf t3 by blast
  have "hc = h @ [\<lparr>dtype_of = dtype_of t1, elems = es\<rparr>]" "rc = Some (length h)"
    using H es(2) by simp_all
  moreover have "elems (h[a := \<lparr>dtype_of = dtype_of (h ! a), elems = es\<rparr>] ! a) = es"
    using H by simp
  ultimately show "\<exists>res hi'. hc = h @ [res] \<and> rc = Some (length h)
      \<and> pack h a s msk True = (hi', Inr None) \<and> elems (hi' ! a) = elems res"
    using es(1) by force
qed

lemma pack_modes_agree_example:
  "(0::nat) < length [\<lparr>dtype_of = UInt W8, elems = [181, 64]\<rparr>, \<lparr>dtype_of = UInt W8, elems = [3, 9]\<rparr>]
   \<and> (0::int) < 15 \<and> in_range (UInt W8) 15 \<and> in_range (UInt W8) 181 \<and> in_range (UInt W8) 64
   \<and> pack [\<lparr>dtype_of = UInt W8, elems = [181, 64]\<rparr>, \<lparr>dtype_of = UInt W8, elems = [3, 9]\<rparr>] 0 1 15 True
       = ([\<lparr>dtype_of = UInt W8, elems = [179, 73]\<rparr>, \<lparr>dtype_of = UInt W8, elems = [3, 9]\<rparr>], Inr None)
   \<and> pack [\<lparr>dtype_of = UInt W8, elems = [181, 64]\<rparr>, \<lparr>dtype_of = UInt W8, elems = [3, 9]\<rparr>] 0 1 15 False
       = ([\<lparr>dtype_of = UInt W8, elems = [181, 64]\<rparr>, \<lparr>dtype_of = UInt W8, elems = [3, 9]\<rparr>,
           \<lparr>dtype_of = SInt W16, elems = [179, 73]\<rparr>], Inr (Some 2))"
proof -
  let ?h = "[\<lparr>dtype_of = UInt W8, elems = [181, 64]\<rparr>, \<lparr>dtype_of = UInt W8, elems = [3, 9]\<rparr>]"
  let ?hi = "[\<lparr>dtype_of = UInt W8, elems = [179, 73]\<rparr>, \<lparr>dtype_of = UInt W8, elems = [3, 9]\<rparr>]"
  have e1: "pack ?h 0 1 15 True = (?hi, Inr None)" by code_simp
  have e2: "pack ?h 0 1 15 False =
     (?h @ [\<lparr>dtype_of = SInt W16, elems = [179, 73]\<rparr>], Inr (Some 2))" by code_simp
  have "\<exists>res. pack ?h 0 1 15 False = (?h @ [res], Inr (Some (length ?h)))
      \<and> elems res = elems (?hi ! 0)"
    using pack_modes_agree_distinct_buffers [of 0 ?h 1 15 ?hi None] e1 by simp
  then show ?thesis using e1 e2 by simp
qed

text \<open>
  Claim C7. The two branches of \<open>pack\<close> are written as the same computation, and they do
  not give the same column. Where the destination is also the sub-field array, the call
  in place reads the sub-field array after it has cleared the masked bits of the
  destination, and leaves 0 where the call without \<^verbatim>\<open>inplace\<close> returns 5. For a mask
  beyond the element type of the destination, the call in place converts to \<^verbatim>\<open>uint8\<close> and
  leaves 0 where the call without \<^verbatim>\<open>inplace\<close> returns 256.
\<close>

theorem pack_inplace_and_copy_differ:
  "pack [\<lparr>dtype_of = UInt W8, elems = [5]\<rparr>] 0 0 15 True
     = ([\<lparr>dtype_of = UInt W8, elems = [0]\<rparr>], Inr None)
   \<and> pack [\<lparr>dtype_of = UInt W8, elems = [5]\<rparr>] 0 0 15 False
     = ([\<lparr>dtype_of = UInt W8, elems = [5]\<rparr>, \<lparr>dtype_of = SInt W16, elems = [5]\<rparr>], Inr (Some 1))
   \<and> pack [\<lparr>dtype_of = UInt W8, elems = [0]\<rparr>, \<lparr>dtype_of = UInt W16, elems = [1]\<rparr>] 0 1 256 True
     = ([\<lparr>dtype_of = UInt W8, elems = [0]\<rparr>, \<lparr>dtype_of = UInt W16, elems = [1]\<rparr>], Inr None)
   \<and> pack [\<lparr>dtype_of = UInt W8, elems = [0]\<rparr>, \<lparr>dtype_of = UInt W16, elems = [1]\<rparr>] 0 1 256 False
     = ([\<lparr>dtype_of = UInt W8, elems = [0]\<rparr>, \<lparr>dtype_of = UInt W16, elems = [1]\<rparr>,
         \<lparr>dtype_of = SInt W16, elems = [256]\<rparr>], Inr (Some 2))"
  by code_simp

subsection \<open>pack: two sub-fields with disjoint masks\<close>













subsection \<open>What the loops of the point record functions leave\<close>

lemma setitem_eq:
  assumes "map_of (columns a) name = Some c" "length (elems (h ! v)) = length (elems (h ! c))"
  shows "setitem h a name v = (h[c := astype (h ! v) (dtype_of (h ! c))], Inr ())"
  using assms by (simp add: setitem_def getitem_def assign_slice_same_length)

lemma pack_inplace_values:
  assumes "a < length h" "a \<noteq> s" "msk \<noteq> 0" "elems (h ! s) \<noteq> []"
    "\<forall>v\<in>set (elems (h ! s)). v \<le> drop_bit (nat (least_significant_bit msk)) msk"
    "result_type (dtype_of (h ! a)) (NOT msk) = Inr t1"
    "result_type (dtype_of (h ! s)) msk = Inr t3"
    "length (elems (h ! s)) = length (elems (h ! a))"
  shows "pack h a s msk True =
    (h[a := \<lparr>dtype_of = dtype_of (h ! a),
              elems = pack_values (dtype_of (h ! a)) (h ! s) msk (elems (h ! a))\<rparr>], Inr None)"
  using pack_inplace_eq [of a h s msk t1 t3] assms
  by (simp add: pack_values_def broadcast_to_def)

lemma pack_packable:
  assumes "a < length h" "a \<noteq> s"
    "packable (dtype_of (h ! a)) (length (elems (h ! a))) (h ! s) msk"
  shows "pack h a s msk True =
    (h[a := \<lparr>dtype_of = dtype_of (h ! a),
              elems = pack_values (dtype_of (h ! a)) (h ! s) msk (elems (h ! a))\<rparr>], Inr None)"
proof -
  from assms(3) obtain t1 t3 where
    "msk \<noteq> 0" "elems (h ! s) \<noteq> []" "length (elems (h ! s)) = length (elems (h ! a))"
    "\<forall>v\<in>set (elems (h ! s)). v \<le> drop_bit (nat (least_significant_bit msk)) msk"
    "result_type (dtype_of (h ! a)) (NOT msk) = Inr t1"
    "result_type (dtype_of (h ! s)) msk = Inr t3"
    by (auto simp: packable_def)
  then show ?thesis using pack_inplace_values [OF assms(1,2)] by blast
qed

lemma length_pack_values:
  "length (elems sub) = length es \<Longrightarrow> length (pack_values t sub msk es) = length es"
  by (simp add: pack_values_def)

lemma ndarray_eta: "\<lparr>dtype_of = dtype_of (r::ndarray), elems = elems r\<rparr> = r"
  by simp

lemma repack_composed_dim_eq:
  assumes "map_of (columns ra) d = Some c" "c < length h"
    "\<forall>sf\<in>set sfs. \<exists>s. map_of (columns sa) (sf_name sf) = Some s \<and> s \<noteq> c
        \<and> h ! s = src (sf_name sf)
        \<and> packable (dtype_of (h ! c)) (length (elems (h ! c))) (src (sf_name sf)) (sf_mask sf)"
  shows "repack_composed_dim h d sfs ra sa =
    (h[c := \<lparr>dtype_of = dtype_of (h ! c),
              elems = fold (\<lambda>sf. pack_values (dtype_of (h ! c)) (src (sf_name sf)) (sf_mask sf))
                        sfs (elems (h ! c))\<rparr>], Inr ())"
  using assms
proof (induction sfs arbitrary: h)
  case Nil
  then show ?case by (simp add: ndarray_eta)
next
  case (Cons sf sfs)
  from Cons.prems(3) obtain s where s: "map_of (columns sa) (sf_name sf) = Some s" "s \<noteq> c"
    "h ! s = src (sf_name sf)"
    "packable (dtype_of (h ! c)) (length (elems (h ! c))) (src (sf_name sf)) (sf_mask sf)"
    by auto
  define dt where "dt = dtype_of (h ! c)"
  define es where "es = pack_values dt (src (sf_name sf)) (sf_mask sf) (elems (h ! c))"
  define h1 where "h1 = h[c := \<lparr>dtype_of = dt, elems = es\<rparr>]"
  have pk: "pack h c s (sf_mask sf) True = (h1, Inr None)"
    using pack_packable [of c h s "sf_mask sf"] Cons.prems(2) s
    by (simp add: h1_def es_def dt_def)
  have les: "length es = length (elems (h ! c))"
    using s(4) by (simp add: es_def length_pack_values packable_def)
  have h1c: "h1 ! c = \<lparr>dtype_of = dt, elems = es\<rparr>" using Cons.prems(2) by (simp add: h1_def)
  have h1c': "dtype_of (h1 ! c) = dtype_of (h ! c)" "length (elems (h1 ! c)) = length (elems (h ! c))"
    by (simp_all add: h1c les dt_def)
  have h1o: "h1 ! s' = h ! s'" if "s' \<noteq> c" for s' using that by (simp add: h1_def)
  have pre: "\<forall>sf\<in>set sfs. \<exists>s. map_of (columns sa) (sf_name sf) = Some s \<and> s \<noteq> c
        \<and> h1 ! s = src (sf_name sf)
        \<and> packable (dtype_of (h1 ! c)) (length (elems (h1 ! c))) (src (sf_name sf)) (sf_mask sf)"
  proof
    fix sf' assume "sf' \<in> set sfs"
    then obtain s' where "map_of (columns sa) (sf_name sf') = Some s'" "s' \<noteq> c"
      "h ! s' = src (sf_name sf')"
      "packable (dtype_of (h ! c)) (length (elems (h ! c))) (src (sf_name sf')) (sf_mask sf')"
      using Cons.prems(3) by auto
    then show "\<exists>s. map_of (columns sa) (sf_name sf') = Some s \<and> s \<noteq> c
        \<and> h1 ! s = src (sf_name sf')
        \<and> packable (dtype_of (h1 ! c)) (length (elems (h1 ! c))) (src (sf_name sf')) (sf_mask sf')"
      by (auto simp: h1c' h1o)
  qed
  have "c < length h1" using Cons.prems(2) by (simp add: h1_def)
  then have "repack_composed_dim h1 d sfs ra sa =
    (h1[c := \<lparr>dtype_of = dtype_of (h1 ! c),
              elems = fold (\<lambda>sf. pack_values (dtype_of (h1 ! c)) (src (sf_name sf)) (sf_mask sf))
                        sfs (elems (h1 ! c))\<rparr>], Inr ())"
    using Cons.IH [OF Cons.prems(1) _ pre] by blast
  then have "repack_composed_dim h1 d sfs ra sa =
    (h[c := \<lparr>dtype_of = dt,
              elems = fold (\<lambda>sf. pack_values dt (src (sf_name sf)) (sf_mask sf)) sfs es\<rparr>], Inr ())"
    by (simp add: h1c) (simp add: h1_def)
  then show ?case
    using Cons.prems(1) s(1) pk by (simp add: getitem_def es_def dt_def)
qed

lemma repack_dims_eq:
  assumes "\<forall>d\<in>set ns. map_of (columns ra) d = Some (A d) \<and> A d < length h"
    and "distinct ns" and "inj_on A (set ns)"
    and "\<forall>name s. map_of (columns sa) name = Some s \<longrightarrow> s \<notin> A ` set ns \<and> h ! s = src name"
    and "\<forall>d\<in>set ns. repackable src sa cf d (h ! A d)"
  shows "\<exists>h'. repack_dims h sa cf ns ra = (h', Inr ()) \<and> length h' = length h
    \<and> (\<forall>a. a \<notin> A ` set ns \<longrightarrow> h' ! a = h ! a)
    \<and> (\<forall>d\<in>set ns. h' ! A d = repacked_column src cf d (h ! A d))"
  using assms
proof (induction ns arbitrary: h)
  case Nil
  then show ?case by simp
next
  case (Cons d ns)
  have c: "map_of (columns ra) d = Some (A d)" "A d < length h" using Cons.prems(1) by simp_all
  define h1 where "h1 = h[A d := repacked_column src cf d (h ! A d)]"
  have step: "(case map_of cf d of
        Some sfs \<Rightarrow> repack_composed_dim h d sfs ra sa
      | None \<Rightarrow> (case getitem sa d of Inl e \<Rightarrow> (h, Inl e)
                  | Inr s \<Rightarrow> setitem h ra d s)) = (h1, Inr ())"
  proof (cases "map_of cf d")
    case None
    then obtain s where s: "map_of (columns sa) d = Some s"
      "length (elems (src d)) = length (elems (h ! A d))"
      using Cons.prems(5) by (auto simp: repackable_def)
    then have "h ! s = src d" using Cons.prems(4) by blast
    then show ?thesis
      using None s c setitem_eq [of ra d "A d" h s]
      by (simp add: getitem_def h1_def repacked_column_def)
  next
    case (Some sfs)
    have "\<forall>sf\<in>set sfs. \<exists>s. map_of (columns sa) (sf_name sf) = Some s \<and> s \<noteq> A d
        \<and> h ! s = src (sf_name sf)
        \<and> packable (dtype_of (h ! A d)) (length (elems (h ! A d))) (src (sf_name sf)) (sf_mask sf)"
    proof
      fix sf assume sf: "sf \<in> set sfs"
      then obtain s where s: "map_of (columns sa) (sf_name sf) = Some s"
        and p: "packable (dtype_of (h ! A d)) (length (elems (h ! A d))) (src (sf_name sf)) (sf_mask sf)"
        using Cons.prems(5) Some by (fastforce simp: repackable_def)
      then have "s \<notin> A ` set (d # ns)" "h ! s = src (sf_name sf)" using Cons.prems(4) by blast+
      then show "\<exists>s. map_of (columns sa) (sf_name sf) = Some s \<and> s \<noteq> A d
        \<and> h ! s = src (sf_name sf)
        \<and> packable (dtype_of (h ! A d)) (length (elems (h ! A d))) (src (sf_name sf)) (sf_mask sf)"
        using s p by auto
    qed
    then show ?thesis
      using Some repack_composed_dim_eq [OF c, of sfs sa src]
      by (simp add: h1_def repacked_column_def)
  qed
  have nd: "d \<notin> set ns" "distinct ns" using Cons.prems(2) by simp_all
  have Ad: "A d \<notin> A ` set ns"
  proof
    assume "A d \<in> A ` set ns"
    then obtain d' where d': "d' \<in> set ns" "A d' = A d" by auto
    have "inj_on A (insert d (set ns))" using Cons.prems(3) by simp
    then have "d' = d" using d' by (meson inj_onD insertI1 insertI2)
    then show False using nd(1) d'(1) by simp
  qed
  have Ad': "A d' \<noteq> A d" if "d' \<in> set ns" for d'
    using that Ad by (metis imageI)
  have h1o: "h1 ! a = h ! a" if "a \<noteq> A d" for a using that by (simp add: h1_def)
  have h1l: "length h1 = length h" by (simp add: h1_def)
  have p1: "\<forall>d\<in>set ns. map_of (columns ra) d = Some (A d) \<and> A d < length h1"
    using Cons.prems(1) by (simp add: h1l)
  have p3: "inj_on A (set ns)"
    using Cons.prems(3) by (rule inj_on_subset) auto
  have p4: "\<forall>name s. map_of (columns sa) name = Some s \<longrightarrow> s \<notin> A ` set ns \<and> h1 ! s = src name"
  proof (intro allI impI)
    fix name s assume "map_of (columns sa) name = Some s"
    then have "s \<notin> A ` set (d # ns)" "h ! s = src name" using Cons.prems(4) by blast+
    then show "s \<notin> A ` set ns \<and> h1 ! s = src name" using h1o [of s] by auto
  qed
  have p5: "\<forall>d\<in>set ns. repackable src sa cf d (h1 ! A d)"
  proof
    fix d' assume d': "d' \<in> set ns"
    then have "A d' \<noteq> A d" by (rule Ad')
    then have "h1 ! A d' = h ! A d'" by (rule h1o)
    then show "repackable src sa cf d' (h1 ! A d')" using Cons.prems(5) d' by simp
  qed
  obtain h' where h': "repack_dims h1 sa cf ns ra = (h', Inr ())" "length h' = length h1"
    "\<forall>a. a \<notin> A ` set ns \<longrightarrow> h' ! a = h1 ! a"
    "\<forall>d\<in>set ns. h' ! A d = repacked_column src cf d (h1 ! A d)"
    using Cons.IH [OF p1 nd(2) p3 p4 p5] by blast
  have r: "repack_dims h sa cf (d # ns) ra = (h', Inr ())"
    using step h'(1) by (auto split: option.splits sum.splits)
  have "h' ! A d = repacked_column src cf d (h ! A d)"
    using h'(3) Ad c(2) by (simp add: h1_def)
  moreover have "\<forall>d'\<in>set ns. h' ! A d' = repacked_column src cf d' (h ! A d')"
  proof
    fix d' assume d': "d' \<in> set ns"
    then have "A d' \<noteq> A d" by (rule Ad')
    then show "h' ! A d' = repacked_column src cf d' (h ! A d')"
      using h'(4) d' h1o by simp
  qed
  moreover have "\<forall>a. a \<notin> A ` set (d # ns) \<longrightarrow> h' ! a = h ! a"
    using h'(3) h1o by auto
  ultimately show ?case using r h'(2) h1l by auto
qed

lemma unpack_unpacked:
  assumes "msk \<noteq> 0" "result_type (dtype_of (h ! s)) msk = Inr t"
  shows "unpack h s msk uint8 = (h @ [unpacked (h ! s) msk], Inr (length h))"
  using unpack_eq [OF assms] by (simp add: unpacked_def)

lemma length_unpacked: "length (elems (unpacked a msk)) = length (elems a)"
  by (simp add: unpacked_def)

lemma unpack_composed_dim_eq:
  assumes "map_of (columns data) d = Some s" "s < length h" "h ! s = D"
    "s \<notin> A ` sf_name ` set sfs"
    "\<forall>sf\<in>set sfs. map_of (columns pr) (sf_name sf) = Some (A (sf_name sf))
        \<and> A (sf_name sf) < length h \<and> sf_mask sf \<noteq> 0
        \<and> (\<exists>t. result_type (dtype_of D) (sf_mask sf) = Inr t)
        \<and> length (elems D) = length (elems (h ! A (sf_name sf)))"
    "distinct (map sf_name sfs)" "inj_on A (sf_name ` set sfs)"
  shows "\<exists>h'. unpack_composed_dim h data d sfs pr = (h', Inr ()) \<and> length h \<le> length h'
    \<and> (\<forall>a<length h. a \<notin> A ` sf_name ` set sfs \<longrightarrow> h' ! a = h ! a)
    \<and> (\<forall>sf\<in>set sfs. h' ! A (sf_name sf)
          = astype (unpacked D (sf_mask sf)) (dtype_of (h ! A (sf_name sf))))"
  using assms
proof (induction sfs arbitrary: h)
  case Nil
  then show ?case by simp
next
  case (Cons sf sfs)
  define c where "c = A (sf_name sf)"
  define U where "U = unpacked D (sf_mask sf)"
  define h2 where "h2 = (h @ [U])[c := astype U (dtype_of (h ! c))]"
  have sf: "map_of (columns pr) (sf_name sf) = Some c" "c < length h" "sf_mask sf \<noteq> 0"
    "\<exists>t. result_type (dtype_of D) (sf_mask sf) = Inr t"
    "length (elems D) = length (elems (h ! c))"
    using Cons.prems(5) by (simp_all add: c_def)
  have u: "unpack h s (sf_mask sf) uint8 = (h @ [U], Inr (length h))"
    using sf(3,4) unpack_unpacked [of "sf_mask sf" h s] Cons.prems(3) by (auto simp: U_def)
  have "length (elems ((h @ [U]) ! length h)) = length (elems ((h @ [U]) ! c))"
    using sf(2,5) by (simp add: nth_append U_def length_unpacked)
  then have si: "setitem (h @ [U]) pr (sf_name sf) (length h) = (h2, Inr ())"
    using setitem_eq [OF sf(1), of "h @ [U]" "length h"] sf(2)
    by (simp add: h2_def nth_append)
  have sc: "s \<noteq> c" using Cons.prems(4) by (auto simp: c_def)
  have nc: "A (sf_name sf') \<noteq> c" if "sf' \<in> set sfs" for sf'
  proof
    assume e: "A (sf_name sf') = c"
    have "inj_on A (insert (sf_name sf) (sf_name ` set sfs))" using Cons.prems(7) by simp
    then have "sf_name sf' = sf_name sf"
      using e that unfolding c_def by (meson inj_onD insertI1 insertI2 imageI)
    moreover have "sf_name sf \<notin> sf_name ` set sfs" using Cons.prems(6) by simp
    ultimately show False using that by (metis imageI)
  qed
  have h2o: "h2 ! a = h ! a" if "a < length h" "a \<noteq> c" for a
    using that by (simp add: h2_def nth_append)
  have h2c: "h2 ! c = astype U (dtype_of (h ! c))" using sf(2) by (simp add: h2_def)
  have h2l: "length h2 = Suc (length h)" by (simp add: h2_def)
  have p2: "s < length h2" using Cons.prems(2) h2l by simp
  have p3: "h2 ! s = D" using h2o [OF Cons.prems(2) sc] Cons.prems(3) by simp
  have p4: "s \<notin> A ` sf_name ` set sfs" using Cons.prems(4) by auto
  have p5: "\<forall>sf\<in>set sfs. map_of (columns pr) (sf_name sf) = Some (A (sf_name sf))
        \<and> A (sf_name sf) < length h2 \<and> sf_mask sf \<noteq> 0
        \<and> (\<exists>t. result_type (dtype_of D) (sf_mask sf) = Inr t)
        \<and> length (elems D) = length (elems (h2 ! A (sf_name sf)))"
  proof
    fix sf' assume m: "sf' \<in> set sfs"
    then have "A (sf_name sf') < length h" using Cons.prems(5) by simp
    then have "h2 ! A (sf_name sf') = h ! A (sf_name sf')" using nc [OF m] by (simp add: h2o)
    then show "map_of (columns pr) (sf_name sf') = Some (A (sf_name sf'))
        \<and> A (sf_name sf') < length h2 \<and> sf_mask sf' \<noteq> 0
        \<and> (\<exists>t. result_type (dtype_of D) (sf_mask sf') = Inr t)
        \<and> length (elems D) = length (elems (h2 ! A (sf_name sf')))"
      using Cons.prems(5) m h2l by auto
  qed
  have p6: "distinct (map sf_name sfs)" using Cons.prems(6) by simp
  have p7: "inj_on A (sf_name ` set sfs)" using Cons.prems(7) by (rule inj_on_subset) auto
  obtain h' where h': "unpack_composed_dim h2 data d sfs pr = (h', Inr ())" "length h2 \<le> length h'"
    "\<forall>a<length h2. a \<notin> A ` sf_name ` set sfs \<longrightarrow> h' ! a = h2 ! a"
    "\<forall>sf\<in>set sfs. h' ! A (sf_name sf)
          = astype (unpacked D (sf_mask sf)) (dtype_of (h2 ! A (sf_name sf)))"
    using Cons.IH [OF Cons.prems(1) p2 p3 p4 p5 p6 p7] by blast
  have r: "unpack_composed_dim h data d (sf # sfs) pr = (h', Inr ())"
    using Cons.prems(1) u si h'(1) by (simp add: getitem_def)
  have cn: "c \<notin> A ` sf_name ` set sfs" using nc by auto
  have "h' ! c = astype U (dtype_of (h ! c))"
    using h'(3) cn sf(2) h2l h2c by simp
  moreover have "\<forall>sf'\<in>set sfs. h' ! A (sf_name sf')
      = astype (unpacked D (sf_mask sf')) (dtype_of (h ! A (sf_name sf')))"
  proof
    fix sf' assume m: "sf' \<in> set sfs"
    then have "A (sf_name sf') < length h" using Cons.prems(5) by simp
    then have "h2 ! A (sf_name sf') = h ! A (sf_name sf')" using nc [OF m] by (simp add: h2o)
    then show "h' ! A (sf_name sf')
      = astype (unpacked D (sf_mask sf')) (dtype_of (h ! A (sf_name sf')))"
      using h'(4) m by simp
  qed
  moreover have "\<forall>a<length h. a \<notin> A ` sf_name ` set (sf # sfs) \<longrightarrow> h' ! a = h ! a"
  proof (intro allI impI)
    fix a assume a: "a < length h" "a \<notin> A ` sf_name ` set (sf # sfs)"
    then have "a \<noteq> c" "a \<notin> A ` sf_name ` set sfs" by (auto simp: c_def)
    then show "h' ! a = h ! a" using h'(3) a(1) h2l h2o by simp
  qed
  ultimately show ?case using r h'(2) h2l by (auto simp: c_def U_def)
qed

lemma written_names_Cons:
  "written_names cf (d # ns) = dim_names cf d @ written_names cf ns"
  by (simp add: written_names_def)

lemma unpackable_cong:
  "(\<forall>w\<in>set (dim_names cf d). old w = old' w) \<Longrightarrow>
     unpackable src cf d old = unpackable src cf d old'"
  by (auto simp: unpackable_def dim_names_def split: option.splits)

lemma unpacked_dim_cong:
  "(\<forall>w\<in>set (dim_names cf d). old w = old' w \<and> new w = new' w) \<Longrightarrow>
     unpacked_dim src cf d old new = unpacked_dim src cf d old' new'"
  by (auto simp: unpacked_dim_def dim_names_def split: option.splits)

lemma unpack_dim_step:
  assumes s: "map_of (columns data) d = Some s" "s < length h" "h ! s = src d"
      "s \<notin> A ` set (dim_names cf d)"
    and w: "\<forall>w\<in>set (dim_names cf d). map_of (columns pr) w = Some (A w) \<and> A w < length h"
    and dist: "distinct (dim_names cf d)" "inj_on A (set (dim_names cf d))"
    and u: "unpackable src cf d (\<lambda>w. h ! A w)"
  shows "\<exists>h1. (case map_of cf d of
        Some sfs \<Rightarrow> unpack_composed_dim h data d sfs pr
      | None \<Rightarrow> (case getitem data d of Inl e \<Rightarrow> (h, Inl e)
                  | Inr src \<Rightarrow> setitem h pr d src)) = (h1, Inr ())
    \<and> length h \<le> length h1
    \<and> (\<forall>a<length h. a \<notin> A ` set (dim_names cf d) \<longrightarrow> h1 ! a = h ! a)
    \<and> unpacked_dim src cf d (\<lambda>w. h ! A w) (\<lambda>w. h1 ! A w)"
proof (cases "map_of cf d")
  case None
  then have dn: "dim_names cf d = [d]" by (simp add: dim_names_def)
  have c: "map_of (columns pr) d = Some (A d)" "A d < length h" using w dn by simp_all
  have "length (elems (h ! s)) = length (elems (h ! A d))"
    using u None s(3) by (simp add: unpackable_def)
  then have "setitem h pr d s = (h[A d := astype (h ! s) (dtype_of (h ! A d))], Inr ())"
    using setitem_eq [OF c(1)] by simp
  then show ?thesis
    using None s c by (auto simp: getitem_def dn unpacked_dim_def)
next
  case (Some sfs)
  then have dn: "dim_names cf d = map sf_name sfs" by (simp add: dim_names_def)
  have p4: "s \<notin> A ` sf_name ` set sfs" using s(4) dn by auto
  have p5: "\<forall>sf\<in>set sfs. map_of (columns pr) (sf_name sf) = Some (A (sf_name sf))
        \<and> A (sf_name sf) < length h \<and> sf_mask sf \<noteq> 0
        \<and> (\<exists>t. result_type (dtype_of (src d)) (sf_mask sf) = Inr t)
        \<and> length (elems (src d)) = length (elems (h ! A (sf_name sf)))"
    using w u Some dn by (auto simp: unpackable_def)
  have p6: "distinct (map sf_name sfs)" using dist(1) dn by simp
  have p7: "inj_on A (sf_name ` set sfs)" using dist(2) dn by simp
  obtain h' where "unpack_composed_dim h data d sfs pr = (h', Inr ())" "length h \<le> length h'"
    "\<forall>a<length h. a \<notin> A ` sf_name ` set sfs \<longrightarrow> h' ! a = h ! a"
    "\<forall>sf\<in>set sfs. h' ! A (sf_name sf)
          = astype (unpacked (src d) (sf_mask sf)) (dtype_of (h ! A (sf_name sf)))"
    using unpack_composed_dim_eq [OF s(1,2,3) p4 p5 p6 p7] by blast
  then show ?thesis using Some dn by (auto simp: unpacked_dim_def)
qed

lemma unpack_dims_eq:
  assumes "\<forall>d\<in>set ns. \<exists>s. map_of (columns data) d = Some s \<and> s < length h \<and> h ! s = src d
        \<and> s \<notin> A ` set (written_names cf ns)"
    and "\<forall>w\<in>set (written_names cf ns). map_of (columns pr) w = Some (A w) \<and> A w < length h"
    and "distinct (written_names cf ns)" and "inj_on A (set (written_names cf ns))"
    and "\<forall>d\<in>set ns. unpackable src cf d (\<lambda>w. h ! A w)"
  shows "\<exists>h'. unpack_dims h data cf ns pr = (h', Inr ()) \<and> length h \<le> length h'
    \<and> (\<forall>a<length h. a \<notin> A ` set (written_names cf ns) \<longrightarrow> h' ! a = h ! a)
    \<and> (\<forall>d\<in>set ns. unpacked_dim src cf d (\<lambda>w. h ! A w) (\<lambda>w. h' ! A w))"
  using assms
proof (induction ns arbitrary: h)
  case Nil
  then show ?case by simp
next
  case (Cons d ns)
  let ?Wd = "dim_names cf d" and ?Wn = "written_names cf ns"
  have W: "written_names cf (d # ns) = ?Wd @ ?Wn" by (rule written_names_Cons)
  have dist: "distinct ?Wd" "distinct ?Wn" "set ?Wd \<inter> set ?Wn = {}"
    using Cons.prems(3) by (simp_all add: W)
  have inj: "inj_on A (set ?Wd \<union> set ?Wn)" using Cons.prems(4) by (simp add: W)
  have injd: "inj_on A (set ?Wd)" and injn: "inj_on A (set ?Wn)"
    using inj by (auto intro: inj_on_subset)
  have sep: "A w \<noteq> A w'" if "w \<in> set ?Wd" "w' \<in> set ?Wn" for w w'
  proof
    assume "A w = A w'"
    then have "w = w'" using inj that by (meson UnI1 UnI2 inj_onD)
    then show False using dist(3) that by auto
  qed
  obtain s where s: "map_of (columns data) d = Some s" "s < length h" "h ! s = src d"
    "s \<notin> A ` set (?Wd @ ?Wn)"
    using Cons.prems(1) by (auto simp: W)
  have s4: "s \<notin> A ` set ?Wd" using s(4) by auto
  have w: "\<forall>w\<in>set ?Wd. map_of (columns pr) w = Some (A w) \<and> A w < length h"
    using Cons.prems(2) by (simp add: W)
  have u: "unpackable src cf d (\<lambda>w. h ! A w)" using Cons.prems(5) by simp
  obtain h1 where h1: "(case map_of cf d of
        Some sfs \<Rightarrow> unpack_composed_dim h data d sfs pr
      | None \<Rightarrow> (case getitem data d of Inl e \<Rightarrow> (h, Inl e)
                  | Inr src \<Rightarrow> setitem h pr d src)) = (h1, Inr ())"
    "length h \<le> length h1"
    "\<forall>a<length h. a \<notin> A ` set ?Wd \<longrightarrow> h1 ! a = h ! a"
    "unpacked_dim src cf d (\<lambda>w. h ! A w) (\<lambda>w. h1 ! A w)"
    using unpack_dim_step [OF s(1,2,3) s4 w dist(1) injd u] by blast
  have keep: "h1 ! A w = h ! A w" if "w \<in> set ?Wn" for w
  proof -
    have "A w < length h" using Cons.prems(2) that by (simp add: W)
    moreover have "A w \<notin> A ` set ?Wd" using sep that by (metis imageE)
    ultimately show ?thesis using h1(3) by simp
  qed
  have p1: "\<forall>d\<in>set ns. \<exists>s. map_of (columns data) d = Some s \<and> s < length h1 \<and> h1 ! s = src d
        \<and> s \<notin> A ` set ?Wn"
  proof
    fix d' assume "d' \<in> set ns"
    then obtain s' where s': "map_of (columns data) d' = Some s'" "s' < length h" "h ! s' = src d'"
      "s' \<notin> A ` set (?Wd @ ?Wn)"
      using Cons.prems(1) by (auto simp: W)
    then have "h1 ! s' = h ! s'" using h1(3) by auto
    then show "\<exists>s. map_of (columns data) d' = Some s \<and> s < length h1 \<and> h1 ! s = src d'
        \<and> s \<notin> A ` set ?Wn"
      using s' h1(2) by auto
  qed
  have p2: "\<forall>w\<in>set ?Wn. map_of (columns pr) w = Some (A w) \<and> A w < length h1"
  proof
    fix w' assume "w' \<in> set ?Wn"
    then have "map_of (columns pr) w' = Some (A w')" "A w' < length h"
      using Cons.prems(2) by (simp_all add: W)
    then show "map_of (columns pr) w' = Some (A w') \<and> A w' < length h1" using h1(2) by simp
  qed
  have sub: "set (dim_names cf d') \<subseteq> set ?Wn" if "d' \<in> set ns" for d'
    using that by (auto simp: written_names_def)
  have p5: "\<forall>d\<in>set ns. unpackable src cf d (\<lambda>w. h1 ! A w)"
  proof
    fix d' assume d': "d' \<in> set ns"
    have "\<forall>w\<in>set (dim_names cf d'). h1 ! A w = h ! A w" using keep sub [OF d'] by auto
    then have "unpackable src cf d' (\<lambda>w. h1 ! A w) = unpackable src cf d' (\<lambda>w. h ! A w)"
      by (intro unpackable_cong) simp
    then show "unpackable src cf d' (\<lambda>w. h1 ! A w)" using Cons.prems(5) d' by simp
  qed
  obtain h' where h': "unpack_dims h1 data cf ns pr = (h', Inr ())" "length h1 \<le> length h'"
    "\<forall>a<length h1. a \<notin> A ` set ?Wn \<longrightarrow> h' ! a = h1 ! a"
    "\<forall>d\<in>set ns. unpacked_dim src cf d (\<lambda>w. h1 ! A w) (\<lambda>w. h' ! A w)"
    using Cons.IH [OF p1 p2 dist(2) injn p5] by blast
  have r: "unpack_dims h data cf (d # ns) pr = (h', Inr ())"
    using h1(1) h'(1) by (auto split: option.splits sum.splits)
  have "unpacked_dim src cf d (\<lambda>w. h ! A w) (\<lambda>w. h' ! A w)"
  proof -
    have "\<forall>w\<in>set ?Wd. h' ! A w = h1 ! A w"
    proof
      fix w assume m: "w \<in> set ?Wd"
      then have "A w < length h1" using w h1(2) by auto
      moreover have "A w \<notin> A ` set ?Wn" using sep [OF m] by (metis imageE)
      ultimately show "h' ! A w = h1 ! A w" using h'(3) by simp
    qed
    then have "unpacked_dim src cf d (\<lambda>w. h ! A w) (\<lambda>w. h' ! A w)
        = unpacked_dim src cf d (\<lambda>w. h ! A w) (\<lambda>w. h1 ! A w)"
      by (intro unpacked_dim_cong) simp
    then show ?thesis using h1(4) by simp
  qed
  moreover have "\<forall>d'\<in>set ns. unpacked_dim src cf d' (\<lambda>w. h ! A w) (\<lambda>w. h' ! A w)"
  proof
    fix d' assume d': "d' \<in> set ns"
    have "\<forall>w\<in>set (dim_names cf d'). h1 ! A w = h ! A w" using keep sub [OF d'] by auto
    then have "unpacked_dim src cf d' (\<lambda>w. h1 ! A w) (\<lambda>w. h' ! A w)
        = unpacked_dim src cf d' (\<lambda>w. h ! A w) (\<lambda>w. h' ! A w)"
      by (intro unpacked_dim_cong) simp
    then show "unpacked_dim src cf d' (\<lambda>w. h ! A w) (\<lambda>w. h' ! A w)" using h'(4) d' by simp
  qed
  moreover have "\<forall>a<length h. a \<notin> A ` set (written_names cf (d # ns)) \<longrightarrow> h' ! a = h ! a"
  proof (intro allI impI)
    fix a assume a: "a < length h" "a \<notin> A ` set (written_names cf (d # ns))"
    then have "a \<notin> A ` set ?Wd" "a \<notin> A ` set ?Wn" by (auto simp: W)
    then show "h' ! a = h ! a" using h'(3) h1(2,3) a(1) by simp
  qed
  ultimately show ?case using r h1(2) h'(2) by auto
qed

subsection \<open>Bytes: unpacking and packing again\<close>

lemma lsb_nat:
  assumes "msk \<noteq> 0"
  shows "bit msk (nat (least_significant_bit msk))
    \<and> (\<forall>i<nat (least_significant_bit msk). \<not> bit msk i)"
  using least_significant_bit_nonzero [OF assms] by auto

lemma push_drop_and_mask:
  assumes "msk \<noteq> 0"
  shows "push_bit (nat (least_significant_bit msk)) (drop_bit (nat (least_significant_bit msk)) (x AND msk))
    = x AND msk"
proof (rule bit_eqI)
  fix i
  define k where "k = nat (least_significant_bit msk)"
  have low: "\<not> bit msk i" if "i < k" using lsb_nat [OF assms] that by (simp add: k_def)
  have "bit (push_bit k (drop_bit k (x AND msk))) i = bit (x AND msk) i"
  proof (cases "i < k")
    case True
    then show ?thesis using low by (simp add: bit_push_bit_iff bit_and_iff)
  next
    case False
    then have "k + (i - k) = i" by simp
    then show ?thesis using False by (simp add: bit_push_bit_iff bit_drop_bit_eq bit_and_iff)
  qed
  then show "bit (push_bit (nat (least_significant_bit msk))
        (drop_bit (nat (least_significant_bit msk)) (x AND msk))) i = bit (x AND msk) i"
    by (simp only: k_def)
qed

lemma byte_and: "0 \<le> (m::int) \<Longrightarrow> m < 256 \<Longrightarrow> 0 \<le> x AND m \<and> x AND m < 256"
proof -
  assume m: "0 \<le> m" "m < 256"
  then have "x AND m \<le> m" by (simp add: AND_upper2)
  then show ?thesis using m by simp
qed

lemma drop_bit_mono_int: "(a::int) \<le> b \<Longrightarrow> drop_bit n a \<le> drop_bit n b"
  by (simp add: drop_bit_eq_div zdiv_mono1)

lemma drop_bit_byte: "0 \<le> (y::int) \<Longrightarrow> y < 256 \<Longrightarrow> 0 \<le> drop_bit n y \<and> drop_bit n y < 256"
proof -
  assume y: "0 \<le> y" "y < 256"
  have "drop_bit n y \<le> drop_bit 0 y"
    by (simp add: drop_bit_eq_div) (metis y(1) div_by_1 one_le_power one_le_numeral zdiv_mono2 zero_less_one)
  then show ?thesis using y by simp
qed

lemma cast_uint8_byte: "0 \<le> y \<Longrightarrow> y < 256 \<Longrightarrow> cast uint8 y = y"
  by (simp add: uint8_def take_bit_int_eq_self)

lemma unpacked_byte_value:
  assumes "byte_mask msk"
  shows "cast uint8 (cast uint8 (drop_bit (nat (least_significant_bit msk)) (x AND msk)))
      = drop_bit (nat (least_significant_bit msk)) (x AND msk)"
    and "0 \<le> drop_bit (nat (least_significant_bit msk)) (x AND msk)"
    and "drop_bit (nat (least_significant_bit msk)) (x AND msk) < 256"
    and "drop_bit (nat (least_significant_bit msk)) (x AND msk)
      \<le> drop_bit (nat (least_significant_bit msk)) msk"
proof -
  have m: "0 \<le> msk" "msk < 256" using assms by (simp_all add: byte_mask_def)
  have b: "0 \<le> x AND msk" "x AND msk < 256" using byte_and [OF m] by simp_all
  show "0 \<le> drop_bit (nat (least_significant_bit msk)) (x AND msk)"
    and "drop_bit (nat (least_significant_bit msk)) (x AND msk) < 256"
    using drop_bit_byte [OF b] by simp_all
  then show "cast uint8 (cast uint8 (drop_bit (nat (least_significant_bit msk)) (x AND msk)))
      = drop_bit (nat (least_significant_bit msk)) (x AND msk)"
    by (simp add: cast_uint8_byte)
  have "x AND msk \<le> msk" using m(1) by (simp add: AND_upper2)
  then show "drop_bit (nat (least_significant_bit msk)) (x AND msk)
      \<le> drop_bit (nat (least_significant_bit msk)) msk"
    by (rule drop_bit_mono_int)
qed

lemma repack_byte_step:
  assumes "byte_mask msk" "0 \<le> x" "x < 256"
  shows "cast uint8 (((x AND M) AND NOT msk)
      OR (cast uint8 (push_bit (nat (least_significant_bit msk))
            (cast uint8 (cast uint8 (drop_bit (nat (least_significant_bit msk)) (x AND msk)))))
          AND msk))
    = x AND (M OR msk)"
proof -
  have m: "msk \<noteq> 0" "0 \<le> msk" "msk < 256" using assms(1) by (simp_all add: byte_mask_def)
  have b: "0 \<le> x AND msk" "x AND msk < 256" using byte_and [OF m(2,3)] by simp_all
  have "cast uint8 (push_bit (nat (least_significant_bit msk))
            (cast uint8 (cast uint8 (drop_bit (nat (least_significant_bit msk)) (x AND msk)))))
      = cast uint8 (push_bit (nat (least_significant_bit msk))
            (drop_bit (nat (least_significant_bit msk)) (x AND msk)))"
    by (simp only: unpacked_byte_value(1) [OF assms(1)])
  also have "\<dots> = cast uint8 (x AND msk)"
    by (simp only: push_drop_and_mask [OF m(1)])
  also have "\<dots> = x AND msk" using b by (rule cast_uint8_byte)
  finally have "cast uint8 (push_bit (nat (least_significant_bit msk))
            (cast uint8 (cast uint8 (drop_bit (nat (least_significant_bit msk)) (x AND msk)))))
      = x AND msk" .
  moreover have "((x AND M) AND NOT msk) OR ((x AND msk) AND msk) = x AND (M OR msk)"
    by (auto intro!: bit_eqI simp: bit_and_iff bit_or_iff bit_not_iff)
  moreover have "0 \<le> x AND (M OR msk)" "x AND (M OR msk) < 256"
  proof -
    have "x AND (M OR msk) \<le> x" using assms(2) by (rule AND_upper1)
    then show "x AND (M OR msk) < 256" using assms(3) by simp
    show "0 \<le> x AND (M OR msk)" using assms(2) by simp
  qed
  ultimately show ?thesis by (simp only: cast_uint8_byte)
qed

lemma map2_same: "map2 F (map f xs) (map g xs) = map (\<lambda>x. F (f x) (g x)) xs"
  by (induction xs) simp_all

lemma pack_values_unpacked:
  assumes "byte_mask msk" "\<forall>x\<in>set xs. 0 \<le> x \<and> x < 256"
  shows "pack_values uint8 (astype (unpacked \<lparr>dtype_of = t, elems = xs\<rparr> msk) uint8) msk
      (map (\<lambda>x. x AND M) xs) = map (\<lambda>x. x AND (M OR msk)) xs"
proof -
  have "pack_values uint8 (astype (unpacked \<lparr>dtype_of = t, elems = xs\<rparr> msk) uint8) msk
      (map (\<lambda>x. x AND M) xs)
    = map (\<lambda>x. cast uint8 (((x AND M) AND NOT msk)
      OR (cast uint8 (push_bit (nat (least_significant_bit msk))
            (cast uint8 (cast uint8 (drop_bit (nat (least_significant_bit msk)) (x AND msk)))))
          AND msk))) xs"
    by (simp only: pack_values_def astype_def unpacked_def ndarray.simps map_map o_def map2_same)
  also have "\<dots> = map (\<lambda>x. x AND (M OR msk)) xs"
    by (rule map_cong) (use assms in \<open>simp_all only: repack_byte_step\<close>)
  finally show ?thesis .
qed

lemma repack_unpacked_fold:
  assumes "\<forall>sf\<in>set sfs. byte_mask (sf_mask sf)" "\<forall>x\<in>set xs. 0 \<le> x \<and> x < 256"
  shows "fold (\<lambda>sf. pack_values uint8
            (astype (unpacked \<lparr>dtype_of = t, elems = xs\<rparr> (sf_mask sf)) uint8) (sf_mask sf))
          sfs (map (\<lambda>x. x AND M) xs)
    = map (\<lambda>x. x AND fold (\<lambda>sf m. m OR sf_mask sf) sfs M) xs"
  using assms(1)
proof (induction sfs arbitrary: M)
  case Nil
  show ?case by simp
next
  case (Cons sf sfs)
  then have "byte_mask (sf_mask sf)" "\<forall>sf\<in>set sfs. byte_mask (sf_mask sf)" by simp_all
  then show ?case
    using pack_values_unpacked [OF _ assms(2), of "sf_mask sf" t M] Cons.IH [of "M OR sf_mask sf"]
    by simp
qed

end
